theory Spec2Isabelle
  imports Complex_Main "HOL-Library.Monad_Syntax"
begin

section \<open>Variational information pursuit on MNIST: the training and evaluation script\<close>

text \<open>
  A shallow embedding of \<^verbatim>\<open>main_mnist.py\<close>. A float tensor is a list (of lists) of
  reals, rounding is not modelled, and the one number that a mean or a standard
  deviation returns is a real or \<^verbatim>\<open>nan\<close>; a tensor of class labels or of step counts is
  a list of naturals. A computation that raises a Python exception has the value \<open>None\<close>;
  the comment beside each such branch names the exception.

  The classifier and the querier networks and the helper \<^verbatim>\<open>ops.update_masked_image\<close>
  are arbitrary total functions, gathered in the record \<open>collaborators\<close>; whatever is
  proved holds for every choice of them.
\<close>

subsection \<open>Constants of \<^verbatim>\<open>main\<close>\<close>

text \<open>
  \<^verbatim>\<open>QUERY_ALL = 676 # 26*26\<close>, \<^verbatim>\<open>PATCH_SIZE = 3\<close>, \<^verbatim>\<open>THRESHOLD = 0.85\<close>.
  The images that \<^verbatim>\<open>datasets.MNIST\<close> yields are 28 pixels high and 28 wide.
\<close>

definition QUERY_ALL :: nat where
  "QUERY_ALL = 676"

definition PATCH_SIZE :: nat where
  "PATCH_SIZE = 3"

definition THRESHOLD :: real where
  "THRESHOLD = 0.85"

definition MNIST_HEIGHT :: nat where
  "MNIST_HEIGHT = 28"

definition MNIST_WIDTH :: nat where
  "MNIST_WIDTH = 28"

text \<open>
  The size of the patch index space by the tiling formula of the data model:
  \<open>(height / patch_size) \<times> (width / patch_size)\<close>.
\<close>

definition tiling_patches :: "nat \<Rightarrow> nat \<Rightarrow> nat \<Rightarrow> nat" where
  "tiling_patches h w p = (h div p) * (w div p)"

text \<open>
  The number of positions of a \<open>p \<times> p\<close> window that moves one pixel at a time over an
  \<open>h \<times> w\<close> image.
\<close>

definition window_positions :: "nat \<Rightarrow> nat \<Rightarrow> nat \<Rightarrow> nat" where
  "window_positions h w p = (h - p + 1) * (w - p + 1)"

subsection \<open>Tensors and the external collaborators\<close>

text \<open>An image is a tensor of channels, rows and columns; a batch is a list of images.\<close>

type_synonym image = "real list list list"

record collaborators =
  querier :: "image list \<Rightarrow> real list list \<Rightarrow> real list list"
  classifier :: "image list \<Rightarrow> real list list"
  update_masked_image :: "image list \<Rightarrow> image list \<Rightarrow> real list list \<Rightarrow> nat \<Rightarrow> image list"
  softmax :: "real list \<Rightarrow> real list"

text \<open>\<^verbatim>\<open>torch.zeros_like(test_images)\<close> and \<^verbatim>\<open>torch.zeros(N, QUERY_ALL)\<close>.\<close>

definition zeros_like :: "image list \<Rightarrow> image list" where
  "zeros_like imgs = map (map (map (map (\<lambda>_. 0)))) imgs"

definition zeros :: "nat \<Rightarrow> nat \<Rightarrow> real list list" where
  "zeros n p = replicate n (replicate p 0)"

text \<open>
  \<^verbatim>\<open>t.argmax(dim=1)\<close>: for every row the position of its greatest entry, the first one
  among equals; \<open>None\<close> on a row without entries (RuntimeError).
\<close>

fun argmax_from :: "real \<Rightarrow> nat \<Rightarrow> nat \<Rightarrow> real list \<Rightarrow> nat" where
  "argmax_from best bi i [] = bi"
| "argmax_from best bi i (x # xs) =
     (if best < x then argmax_from x i (Suc i) xs else argmax_from best bi (Suc i) xs)"

definition argmax :: "real list \<Rightarrow> nat option" where
  "argmax xs = (case xs of [] \<Rightarrow> None | x # rest \<Rightarrow> Some (argmax_from x 0 1 rest))"

fun argmax_dim1 :: "real list list \<Rightarrow> nat list option" where
  "argmax_dim1 [] = Some []"
| "argmax_dim1 (r # rs) =
     do { i \<leftarrow> argmax r; js \<leftarrow> argmax_dim1 rs; Some (i # js) }"

text \<open>
  \<^verbatim>\<open>mask[np.arange(N), idx] = 1.0\<close>: row \<open>n\<close> gets a one at column \<open>idx[n]\<close>. A column
  outside the row is an IndexError. The querier is taken to return one row of scores
  per sample, so the two index tensors have the same length; any other length is
  reported as a failure (the broadcasting of an index tensor of length one is not
  modelled).
\<close>

fun index_put_ones :: "real list list \<Rightarrow> nat list \<Rightarrow> real list list option" where
  "index_put_ones [] [] = Some []"
| "index_put_ones (row # rows) (i # js) =
     (if i < length row
      then do { rows' \<leftarrow> index_put_ones rows js; Some (row[i := 1] # rows') }
      else None)"
| "index_put_ones _ _ = None"

subsection \<open>The evaluation rollout (lines 147 to 156)\<close>

text \<open>
  The variables the loop over \<^verbatim>\<open>range(args.max_queries_test)\<close> reads and writes.
  \<open>label_logits\<close> is \<open>None\<close> while the Python variable is unbound.
\<close>

record rollout_state =
  test_inputs :: "image list"
  mask :: "real list list"
  logits :: "real list list list"
  queries :: "real list list list"
  label_logits :: "real list list option"

text \<open>One pass through the body of the loop.\<close>

definition eval_step :: "collaborators \<Rightarrow> image list \<Rightarrow> rollout_state \<Rightarrow> rollout_state option" where
  "eval_step c test_images s =
     (let query_vec = querier c (test_inputs s) (mask s);
          ll = classifier c (test_inputs s)
      in do {
        idx \<leftarrow> argmax_dim1 query_vec;
        mask' \<leftarrow> index_put_ones (mask s) idx;
        Some \<lparr>test_inputs = update_masked_image c (test_inputs s) test_images query_vec PATCH_SIZE,
              mask = mask',
              logits = logits s @ [ll],
              queries = queries s @ [query_vec],
              label_logits = Some ll\<rparr>
      })"

fun run_steps :: "collaborators \<Rightarrow> image list \<Rightarrow> nat \<Rightarrow> rollout_state \<Rightarrow> rollout_state option" where
  "run_steps c test_images 0 s = Some s"
| "run_steps c test_images (Suc k) s =
     do { s' \<leftarrow> eval_step c test_images s; run_steps c test_images k s' }"

text \<open>
  The state before the loop; \<open>prior\<close> is what \<^verbatim>\<open>label_logits\<close> holds from an earlier
  batch, if anything.
\<close>

definition rollout_init :: "image list \<Rightarrow> real list list option \<Rightarrow> rollout_state" where
  "rollout_init test_images prior =
     \<lparr>test_inputs = zeros_like test_images,
      mask = zeros (length test_images) QUERY_ALL,
      logits = [], queries = [], label_logits = prior\<rparr>"

text \<open>\<^verbatim>\<open>range(n)\<close> is empty for a negative \<open>n\<close>: the loop body runs \<open>nat n\<close> times.\<close>

definition rollout :: "collaborators \<Rightarrow> int \<Rightarrow> image list \<Rightarrow> real list list option \<Rightarrow> rollout_state option" where
  "rollout c max_queries_test test_images prior =
     run_steps c test_images (nat max_queries_test) (rollout_init test_images prior)"

text \<open>
  The querier's interface: for a mask of rows of \<open>QUERY_ALL\<close> entries, one row per
  sample, it returns scores of the same shape.
\<close>

definition well_shaped :: "collaborators \<Rightarrow> bool" where
  "well_shaped c =
     (\<forall>inp m. (\<forall>row \<in> set m. length row = QUERY_ALL) \<longrightarrow>
        map length (querier c inp m) = map length m)"

text \<open>A mask of \<open>n\<close> rows of \<open>QUERY_ALL\<close> entries, each of them 0 or 1.\<close>

definition binary_mask :: "nat \<Rightarrow> real list list \<Rightarrow> bool" where
  "binary_mask n m = (length m = n \<and> (\<forall>row \<in> set m. length row = QUERY_ALL \<and> set row \<subseteq> {0, 1}))"

text \<open>
  The mask \<open>m'\<close> has the shape of \<open>m\<close>, no entry of it is smaller, every one of \<open>m\<close> is
  a one of \<open>m'\<close>, and an entry that changed is a one.
\<close>

definition mask_grows :: "real list list \<Rightarrow> real list list \<Rightarrow> bool" where
  "mask_grows m m' =
     (length m' = length m \<and>
      (\<forall>n < length m. length (m' ! n) = length (m ! n) \<and>
         (\<forall>p < length (m ! n).
            m ! n ! p \<le> m' ! n ! p \<and>
            (m ! n ! p = 1 \<longrightarrow> m' ! n ! p = 1) \<and>
            (m' ! n ! p \<noteq> m ! n ! p \<longrightarrow> m' ! n ! p = 1))))"

text \<open>
  Collaborators to run the script on: the querier scores a hidden patch 1 and a revealed
  one 0, the classifier always answers with the logits \<open>[1, 0]\<close>.
\<close>

definition example_collaborators :: collaborators where
  "example_collaborators =
     \<lparr>querier = (\<lambda>inp m. map (map (\<lambda>x. 1 - x)) m),
      classifier = (\<lambda>inp. map (\<lambda>_. [1, 0]) inp),
      update_masked_image = (\<lambda>cur full q p. cur),
      softmax = (\<lambda>l. l)\<rparr>"

text \<open>
  Collaborators that make every pass of the loop visible. \<open>update_masked_image\<close> adds
  the true image to the partial one, pixel by pixel, so after \<open>k\<close> updates a pixel
  holds \<open>k\<close> times its true value; the classifier answers with the pixels of the
  partial image as logits; the querier scores a hidden patch 1 and a revealed one 0.
\<close>

definition add_images :: "image list \<Rightarrow> image list \<Rightarrow> image list" where
  "add_images cur full =
     map (\<lambda>(c, f). map (\<lambda>(cc, fc). map (\<lambda>(cr, fr). map (\<lambda>(x, y). x + y) (zip cr fr))
       (zip cc fc)) (zip c f)) (zip cur full)"

definition probe_collaborators :: collaborators where
  "probe_collaborators =
     \<lparr>querier = (\<lambda>inp m. map (map (\<lambda>x. 1 - x)) m),
      classifier = (\<lambda>inp. map (\<lambda>img. concat (concat img)) inp),
      update_masked_image = (\<lambda>cur full q p. add_images cur full),
      softmax = (\<lambda>l. l)\<rparr>"

subsection \<open>The stopping criterion \<^verbatim>\<open>ops.compute_queries_needed\<close>\<close>

text \<open>
  Modelled from the spec: \<^verbatim>\<open>ops.compute_queries_needed\<close> is not among the sources.
  Section 4.6: the logits of every step are converted to a probability distribution
  over the classes (\<open>sm\<close>, for instance a normalised exponential); for each sample on
  its own the result is the smallest 1-based step at which the maximum class
  probability exceeds the threshold, and the number of steps when there is none.
  Section 7: a threshold outside \<open>(0, 1]\<close> is fatal at call time.
  The logits are indexed by sample, then by step, then by class.
\<close>

text \<open>
  Modelled from the spec: the maximum class probability of section 4.6, the greatest
  entry of a vector of class probabilities (0 for a vector without entries, which no
  distribution over classes is).
\<close>

definition max_class_prob :: "real list \<Rightarrow> real" where
  "max_class_prob ps = (case ps of [] \<Rightarrow> 0 | p # qs \<Rightarrow> fold max qs p)"

text \<open>
  Modelled from the spec: the search of section 4.6 for the first 1-based position of a
  list at which the entry exceeds the threshold.
\<close>

fun first_crossing :: "real \<Rightarrow> real list \<Rightarrow> nat option" where
  "first_crossing th [] = None"
| "first_crossing th (p # ps) =
     (if th < p then Some 1 else map_option Suc (first_crossing th ps))"

text \<open>
  Modelled from the spec: the queries needed by one sample (section 4.6), and the
  function on a batch with its check of the threshold (section 7).
\<close>

definition queries_needed_sample :: "(real list \<Rightarrow> real list) \<Rightarrow> real \<Rightarrow> real list list \<Rightarrow> nat" where
  "queries_needed_sample sm th steps =
     (case first_crossing th (map (\<lambda>l. max_class_prob (sm l)) steps) of
        Some t \<Rightarrow> t
      | None \<Rightarrow> length steps)"

definition compute_queries_needed ::
    "(real list \<Rightarrow> real list) \<Rightarrow> real list list list \<Rightarrow> real \<Rightarrow> nat list option" where
  "compute_queries_needed sm lg th =
     (if 0 < th \<and> th \<le> 1 then Some (map (queries_needed_sample sm th) lg) else None)"

subsection \<open>The statistics of one test batch (lines 157 to 164)\<close>

text \<open>
  What a reduction of a float tensor to one number returns: a number, or \<^verbatim>\<open>nan\<close>.
\<close>

datatype tfloat = Val real | NaN

text \<open>
  \<^verbatim>\<open>t.mean()\<close> is \<^verbatim>\<open>nan\<close> on a tensor without entries. \<^verbatim>\<open>t.std()\<close> is the unbiased
  estimate, with \<open>n - 1\<close> in the denominator: it is \<^verbatim>\<open>nan\<close> on fewer than two entries.
\<close>

definition mean :: "real list \<Rightarrow> tfloat" where
  "mean xs = (if xs = [] then NaN else Val (sum_list xs / real (length xs)))"

definition std :: "real list \<Rightarrow> tfloat" where
  "std xs =
     (if length xs < 2 then NaN
      else let mu = sum_list xs / real (length xs)
           in Val (sqrt (sum_list (map (\<lambda>x. (x - mu)\<^sup>2) xs) / (real (length xs) - 1))))"

text \<open>The product of such a result with a number; \<^verbatim>\<open>nan\<close> stays \<^verbatim>\<open>nan\<close>.\<close>

fun fmul :: "tfloat \<Rightarrow> real \<Rightarrow> tfloat" where
  "fmul (Val x) w = Val (x * w)"
| "fmul NaN w = NaN"

text \<open>
  \<^verbatim>\<open>(pred == labels).float()\<close> for two tensors of one dimension and the same length; a
  different length is a RuntimeError (broadcasting of a tensor of length one is not
  modelled).
\<close>

definition eq_float :: "nat list \<Rightarrow> nat list \<Rightarrow> real list option" where
  "eq_float xs ys =
     (if length xs = length ys
      then Some (map (\<lambda>(x, y). if x = y then 1 else 0) (zip xs ys))
      else None)"

text \<open>
  \<^verbatim>\<open>torch.stack(logits).permute(1, 0, 2)\<close>: the list of per-step logits, each indexed by
  sample and class, becomes one tensor indexed by sample, step and class.
  \<^verbatim>\<open>torch.stack\<close> raises a RuntimeError on an empty list and on tensors of different
  shapes.
\<close>

definition stack_permute :: "real list list list \<Rightarrow> real list list list option" where
  "stack_permute ls =
     (case ls of
        [] \<Rightarrow> None
      | l # rest \<Rightarrow>
          if list_all (\<lambda>l'. map length l' = map length l) rest
          then Some (map (\<lambda>n. map (\<lambda>step. step ! n) ls) [0..<length l])
          else None)"

text \<open>
  Indexing one dimension with a Python integer: a negative index counts from the end,
  an index outside the tensor is an IndexError.
\<close>

definition py_index :: "'a list \<Rightarrow> int \<Rightarrow> 'a option" where
  "py_index xs i =
     (if 0 \<le> i \<and> i < int (length xs) then Some (xs ! nat i)
      else if i < 0 \<and> - int (length xs) \<le> i then Some (xs ! nat (int (length xs) + i))
      else None)"

text \<open>
  \<^verbatim>\<open>logits[torch.arange(len(queries_needed)), queries_needed - 1]\<close>: for the sample
  \<open>n\<close> the logits of the step \<open>queries_needed[n] - 1\<close>.
\<close>

fun gather_steps :: "real list list list \<Rightarrow> int list \<Rightarrow> real list list option" where
  "gather_steps ls [] = Some []"
| "gather_steps [] (i # js) = None"
| "gather_steps (l # ls) (i # js) =
     do { x \<leftarrow> py_index l i; xs \<leftarrow> gather_steps ls js; Some (x # xs) }"

record eval_stats =
  acc_max :: tfloat
  acc_ip :: tfloat
  qry_need_avg :: tfloat
  qry_need_std :: tfloat

text \<open>
  The variables of \<^verbatim>\<open>main\<close> that outlive a test batch: \<^verbatim>\<open>label_logits\<close>, and the
  four statistics that \<^verbatim>\<open>wandb.log\<close> reads after the loop over the batches. \<open>None\<close>
  is an unbound variable.
\<close>

record eval_scope =
  v_label_logits :: "real list list option"
  v_stats :: "eval_stats option"

definition empty_scope :: eval_scope where
  "empty_scope = \<lparr>v_label_logits = None, v_stats = None\<rparr>"

text \<open>
  The body of the loop over \<^verbatim>\<open>testloader\<close> for one batch of images and labels.
  Reading \<^verbatim>\<open>label_logits\<close> while it is unbound is a NameError, the division by
  \<^verbatim>\<open>len(testset)\<close> a ZeroDivisionError when that is 0.
\<close>

definition eval_batch ::
    "collaborators \<Rightarrow> int \<Rightarrow> nat \<Rightarrow> eval_scope \<Rightarrow> image list \<times> nat list \<Rightarrow> eval_scope option" where
  "eval_batch c max_queries_test len_testset sc batch =
     (case batch of (test_images, test_labels) \<Rightarrow>
      do {
        s \<leftarrow> rollout c max_queries_test test_images (v_label_logits sc);
        ll \<leftarrow> label_logits s;
        pred_max \<leftarrow> argmax_dim1 ll;
        hits_max \<leftarrow> eq_float pred_max test_labels;
        w \<leftarrow> (if len_testset = 0 then None
              else Some (real (length test_images) / real len_testset));
        lg \<leftarrow> stack_permute (logits s);
        queries_needed \<leftarrow> compute_queries_needed (softmax c) lg THRESHOLD;
        sel \<leftarrow> gather_steps lg (map (\<lambda>q. int q - 1) queries_needed);
        test_pred_ip \<leftarrow> argmax_dim1 sel;
        hits_ip \<leftarrow> eq_float test_pred_ip test_labels;
        Some \<lparr>v_label_logits = Some ll,
              v_stats = Some \<lparr>acc_max = fmul (mean hits_max) w,
                               acc_ip = fmul (mean hits_ip) w,
                               qry_need_avg = fmul (mean (map real queries_needed)) w,
                               qry_need_std = fmul (std (map real queries_needed)) w\<rparr>\<rparr>
      })"

text \<open>The loop over the batches of \<^verbatim>\<open>testloader\<close>, and the values \<^verbatim>\<open>wandb.log\<close> gets.\<close>

fun eval_batches ::
    "collaborators \<Rightarrow> int \<Rightarrow> nat \<Rightarrow> eval_scope \<Rightarrow> (image list \<times> nat list) list \<Rightarrow> eval_scope option" where
  "eval_batches c max_queries_test len_testset sc [] = Some sc"
| "eval_batches c max_queries_test len_testset sc (b # bs) =
     do { sc' \<leftarrow> eval_batch c max_queries_test len_testset sc b;
          eval_batches c max_queries_test len_testset sc' bs }"

definition eval_log ::
    "collaborators \<Rightarrow> int \<Rightarrow> nat \<Rightarrow> eval_scope \<Rightarrow> (image list \<times> nat list) list \<Rightarrow> eval_stats option" where
  "eval_log c max_queries_test len_testset sc testloader =
     do { sc' \<leftarrow> eval_batches c max_queries_test len_testset sc testloader; v_stats sc' }"

text \<open>
  The four statistics of one batch taken alone, before the weighting: the mean of the
  hits of the last step's prediction, the mean of the hits of the prediction at the
  step \<open>queries_needed\<close>, and the mean and the standard deviation of \<open>queries_needed\<close>.
\<close>

definition batch_statistics ::
    "collaborators \<Rightarrow> int \<Rightarrow> image list \<times> nat list \<Rightarrow> eval_stats option" where
  "batch_statistics c max_queries_test batch =
     (case batch of (test_images, test_labels) \<Rightarrow>
      do {
        s \<leftarrow> rollout c max_queries_test test_images None;
        ll \<leftarrow> label_logits s;
        pred_max \<leftarrow> argmax_dim1 ll;
        hits_max \<leftarrow> eq_float pred_max test_labels;
        lg \<leftarrow> stack_permute (logits s);
        queries_needed \<leftarrow> compute_queries_needed (softmax c) lg THRESHOLD;
        sel \<leftarrow> gather_steps lg (map (\<lambda>q. int q - 1) queries_needed);
        test_pred_ip \<leftarrow> argmax_dim1 sel;
        hits_ip \<leftarrow> eq_float test_pred_ip test_labels;
        Some \<lparr>acc_max = mean hits_max, acc_ip = mean hits_ip,
              qry_need_avg = mean (map real queries_needed),
              qry_need_std = std (map real queries_needed)\<rparr>
      })"

text \<open>
  The share of the samples of the whole test set whose last-step prediction is right:
  the hits of every batch, summed, over \<^verbatim>\<open>len(testset)\<close>. The hits of a batch are its
  accuracy times its size; there is no share when a batch has no accuracy.
\<close>

fun global_acc_max ::
    "collaborators \<Rightarrow> int \<Rightarrow> nat \<Rightarrow> (image list \<times> nat list) list \<Rightarrow> real option" where
  "global_acc_max c max_queries_test len_testset [] = Some 0"
| "global_acc_max c max_queries_test len_testset (b # bs) =
     do { r \<leftarrow> batch_statistics c max_queries_test b;
          a \<leftarrow> (case acc_max r of Val a \<Rightarrow> Some a | NaN \<Rightarrow> None);
          rest \<leftarrow> global_acc_max c max_queries_test len_testset bs;
          Some (a * real (length (fst b)) / real len_testset + rest) }"

subsection \<open>The temperature schedule and the training loop (lines 89 to 127)\<close>

text \<open>
  \<^verbatim>\<open>np.linspace(start, stop, num)\<close>: \<open>num\<close> evenly spaced points from \<open>start\<close> to
  \<open>stop\<close>, both ends included. The point \<open>i\<close> is \<open>start + i * step\<close> with
  \<open>step = (stop - start) / (num - 1)\<close>, and the last point is set to \<open>stop\<close>; for
  \<open>num = 1\<close> the only point is \<open>start\<close>. A negative \<open>num\<close> is a ValueError.
\<close>

definition linspace :: "real \<Rightarrow> real \<Rightarrow> int \<Rightarrow> real list option" where
  "linspace start stop num =
     (if num < 0 then None
      else let n = nat num;
               delta = stop - start;
               step = (if 1 < n then delta / real (n - 1) else delta);
               y = map (\<lambda>i. start + real i * step) [0..<n]
           in Some (if 1 < n then y[n - 1 := stop] else y))"

text \<open>
  What training changes: the temperature of the querier, and \<open>params\<close>, which stands
  for the weights of both networks together with the state of the optimizer.
\<close>

record 'p networks =
  tau :: real
  params :: 'p

text \<open>
  Modelled from the spec: \<^verbatim>\<open>QuerierMNIST.update_tau\<close> is not among the sources.
  Section 6 describes it as the setter of the querier's current temperature.
\<close>

definition update_tau :: "'p networks \<Rightarrow> real \<Rightarrow> 'p networks" where
  "update_tau q t = q\<lparr>tau := t\<rparr>"

text \<open>
  The loop over \<^verbatim>\<open>trainloader\<close> within one epoch. \<open>train_step\<close> stands for lines 99
  to 117 (sampling, the forward passes, the loss and the optimizer step): it gets the
  temperature the querier holds when it runs, the batch and the parameters, and returns
  the new parameters.
\<close>

fun train_batches :: "(real \<Rightarrow> 'b \<Rightarrow> 'p \<Rightarrow> 'p) \<Rightarrow> real \<Rightarrow> 'b list \<Rightarrow> 'p networks \<Rightarrow> 'p networks" where
  "train_batches train_step t [] q = q"
| "train_batches train_step t (b # bs) q =
     (let q1 = update_tau q t;
          q2 = q1\<lparr>params := train_step (tau q1) b (params q1)\<rparr>
      in train_batches train_step t bs q2)"

text \<open>
  The loop over the epochs. \<open>evaluate e q\<close> tells whether the saving and the evaluation
  of the epoch \<open>e\<close> complete (lines 129 to 172; they run when \<open>e\<close> is a multiple of 10
  or the last epoch, change neither the temperature nor the parameters, and end the run
  when they raise). \<^verbatim>\<open>tau_vals[epoch]\<close> outside the array is an IndexError.
\<close>

fun train_epochs ::
    "(real \<Rightarrow> 'b \<Rightarrow> 'p \<Rightarrow> 'p) \<Rightarrow> (nat \<Rightarrow> 'p networks \<Rightarrow> bool) \<Rightarrow> real list \<Rightarrow> 'b list \<Rightarrow> int \<Rightarrow>
     nat list \<Rightarrow> 'p networks \<Rightarrow> 'p networks option" where
  "train_epochs train_step evaluate tau_vals trainloader epochs [] q = Some q"
| "train_epochs train_step evaluate tau_vals trainloader epochs (e # es) q =
     (if e < length tau_vals
      then let q' = train_batches train_step (tau_vals ! e) trainloader q
           in if (e mod 10 = 0 \<or> int e = epochs - 1) \<and> \<not> evaluate e q' then None
              else train_epochs train_step evaluate tau_vals trainloader epochs es q'
      else None)"

definition train ::
    "(real \<Rightarrow> 'b \<Rightarrow> 'p \<Rightarrow> 'p) \<Rightarrow> (nat \<Rightarrow> 'p networks \<Rightarrow> bool) \<Rightarrow> real \<Rightarrow> real \<Rightarrow> int \<Rightarrow>
     'b list \<Rightarrow> 'p \<Rightarrow> 'p networks option" where
  "train train_step evaluate tau_start tau_end epochs trainloader p0 =
     do { tau_vals \<leftarrow> linspace tau_start tau_end epochs;
          train_epochs train_step evaluate tau_vals trainloader epochs [0..<nat epochs]
            \<lparr>tau = tau_start, params = p0\<rparr> }"

subsection \<open>The random sampler \<^verbatim>\<open>ops.random_sampling\<close>\<close>

text \<open>
  Modelled from the spec: \<^verbatim>\<open>ops.random_sampling\<close> is not among the sources.
  Section 4.3: for each sample independently a subset of exactly \<open>max_queries\<close>
  distinct patch indices out of \<open>P\<close> is drawn, those mask entries are set to 1 and all
  others to 0; when \<open>max_queries \<ge> P\<close> the mask is all-ones (section 7: the budget is
  clamped, it is no error). The random source is explicit: \<open>raw n j\<close> is the \<open>j\<close>-th
  raw random number of the sample \<open>n\<close>, and each draw chooses among the indices that
  are not yet taken.
\<close>

fun draw_distinct :: "(nat \<Rightarrow> nat) \<Rightarrow> nat \<Rightarrow> nat \<Rightarrow> nat list \<Rightarrow> nat list" where
  "draw_distinct raw j 0 pool = []"
| "draw_distinct raw j (Suc k) pool =
     (if pool = [] then []
      else let i = raw j mod length pool
           in pool ! i # draw_distinct raw (Suc j) k (take i pool @ drop (Suc i) pool))"

definition random_row :: "(nat \<Rightarrow> nat) \<Rightarrow> nat \<Rightarrow> nat \<Rightarrow> real list" where
  "random_row raw max_queries P =
     (let chosen = draw_distinct raw 0 (min max_queries P) [0..<P]
      in map (\<lambda>p. if p \<in> set chosen then 1 else 0) [0..<P])"

definition random_sampling :: "(nat \<Rightarrow> nat \<Rightarrow> nat) \<Rightarrow> nat \<Rightarrow> nat \<Rightarrow> nat \<Rightarrow> real list list" where
  "random_sampling raw max_queries P num_samples =
     map (\<lambda>n. random_row (raw n) max_queries P) [0..<num_samples]"

subsection \<open>The adaptive sampler \<^verbatim>\<open>ops.adaptive_sampling\<close> and its call site\<close>








section \<open>Properties\<close>

subsection \<open>Indexing helpers\<close>

lemma argmax_from_bound: "bi < i \<Longrightarrow> argmax_from b bi i xs < i + length xs"
proof (induction xs arbitrary: b bi i)
  case Nil then show ?case by simp
next
  case (Cons x xs)
  have "argmax_from x i (Suc i) xs < Suc i + length xs" by (rule Cons.IH) simp
  moreover have "argmax_from b bi (Suc i) xs < Suc i + length xs"
    by (rule Cons.IH) (use Cons.prems in simp)
  ultimately show ?case by simp
qed

lemma argmax_bound: "argmax xs = Some i \<Longrightarrow> i < length xs"
  using argmax_from_bound[of 0 1] by (auto simp: argmax_def split: list.splits)

lemma argmax_dim1_Some:
  "argmax_dim1 q = Some idx \<Longrightarrow> length idx = length q \<and> (\<forall>n < length q. idx ! n < length (q ! n))"
proof (induction q arbitrary: idx)
  case Nil then show ?case by simp
next
  case (Cons r rs)
  then obtain i js where a: "argmax r = Some i" and b: "argmax_dim1 rs = Some js" and c: "idx = i # js"
    by (auto split: bind_splits)
  from Cons.IH[OF b] argmax_bound[OF a] c show ?case
    by (auto simp: nth_Cons split: nat.splits)
qed

lemma argmax_dim1_total:
  "\<forall>row \<in> set q. row \<noteq> [] \<Longrightarrow> \<exists>idx. argmax_dim1 q = Some idx"
  by (induction q) (auto simp: argmax_def split: list.splits)

lemma index_put_ones_Some:
  "index_put_ones m idx = Some m' \<Longrightarrow>
     length idx = length m \<and> length m' = length m \<and>
     (\<forall>n < length m. idx ! n < length (m ! n) \<and> m' ! n = (m ! n)[idx ! n := 1])"
proof (induction m idx arbitrary: m' rule: index_put_ones.induct)
  case 1 then show ?case by simp
next
  case (2 row rows i js)
  then show ?case by (auto simp: nth_Cons split: if_splits bind_splits nat.splits)
qed simp_all

lemma index_put_ones_total:
  "length idx = length m \<Longrightarrow> \<forall>n < length m. idx ! n < length (m ! n) \<Longrightarrow>
     \<exists>m'. index_put_ones m idx = Some m'"
proof (induction m idx rule: index_put_ones.induct)
  case 1 then show ?case by simp
next
  case (2 row rows i js)
  have "\<forall>n<length rows. js ! n < length (rows ! n)"
    using 2(3) by (metis Suc_less_eq length_Cons nth_Cons_Suc)
  moreover have il: "i < length row" using 2(3) by auto
  ultimately obtain m' where "index_put_ones rows js = Some m'" using 2(1,2) by auto
  with il show ?case by simp
qed simp_all


subsection \<open>One step of the rollout, and many\<close>

lemma eval_step_Some:
  assumes "eval_step c imgs s = Some s'"
  shows "\<exists>idx. argmax_dim1 (querier c (test_inputs s) (mask s)) = Some idx \<and>
           index_put_ones (mask s) idx = Some (mask s') \<and>
           test_inputs s' = update_masked_image c (test_inputs s) imgs
              (querier c (test_inputs s) (mask s)) PATCH_SIZE \<and>
           logits s' = logits s @ [classifier c (test_inputs s)] \<and>
           queries s' = queries s @ [querier c (test_inputs s) (mask s)] \<and>
           label_logits s' = Some (classifier c (test_inputs s))"
  using assms by (auto simp: eval_step_def Let_def split: bind_splits)

lemma binary_mask_step:
  assumes "binary_mask n (mask s)" and "eval_step c imgs s = Some s'"
  shows "binary_mask n (mask s')"
proof -
  from eval_step_Some[OF assms(2)] obtain idx where
    ip: "index_put_ones (mask s) idx = Some (mask s')" by blast
  note f = index_put_ones_Some[OF ip]
  have "length (mask s') = n" using f assms(1) by (simp add: binary_mask_def)
  moreover have "length row = QUERY_ALL \<and> set row \<subseteq> {0, 1}" if "row \<in> set (mask s')" for row
  proof -
    from that obtain k where k: "k < length (mask s')" "row = mask s' ! k"
      by (auto simp: in_set_conv_nth)
    then have r: "row = (mask s ! k)[idx ! k := 1]" and kl: "k < length (mask s)" using f by auto
    have "mask s ! k \<in> set (mask s)" using kl by simp
    then have "length (mask s ! k) = QUERY_ALL" "set (mask s ! k) \<subseteq> {0, 1}"
      using assms(1) by (auto simp: binary_mask_def)
    then show ?thesis unfolding r using set_update_subset_insert[of "mask s ! k" "idx ! k" 1]
      by auto
  qed
  ultimately show ?thesis by (simp add: binary_mask_def)
qed

lemma binary_mask_init: "binary_mask (length imgs) (mask (rollout_init imgs prior))"
  by (auto simp: binary_mask_def rollout_init_def zeros_def)

lemma binary_mask_run:
  "binary_mask n (mask s) \<Longrightarrow> run_steps c imgs k s = Some s' \<Longrightarrow> binary_mask n (mask s')"
  by (induction k arbitrary: s) (auto split: bind_splits dest: binary_mask_step)

lemma mask_grows_step:
  assumes "binary_mask n (mask s)" and "eval_step c imgs s = Some s'"
  shows "mask_grows (mask s) (mask s')"
proof -
  from eval_step_Some[OF assms(2)] obtain idx where
    ip: "index_put_ones (mask s) idx = Some (mask s')" by blast
  note f = index_put_ones_Some[OF ip]
  have "m ! k ! p \<le> 1" if "k < length (mask s)" "p < length (mask s ! k)" "m = mask s" for k p m
  proof -
    have "mask s ! k \<in> set (mask s)" using that by simp
    then have "set (mask s ! k) \<subseteq> {0, 1}" using assms(1) by (auto simp: binary_mask_def)
    moreover have "mask s ! k ! p \<in> set (mask s ! k)" using that by simp
    ultimately have "mask s ! k ! p \<in> {0, 1}" by blast
    then show ?thesis using that by auto
  qed
  then show ?thesis using f
    by (auto simp: mask_grows_def nth_list_update)
qed

lemma run_steps_add:
  "run_steps c imgs (a + b) s = (run_steps c imgs a s \<bind> run_steps c imgs b)"
  by (induction a arbitrary: s) (auto split: bind_splits)

lemma run_steps_lengths:
  "run_steps c imgs k s = Some s' \<Longrightarrow>
     length (logits s') = length (logits s) + k \<and> length (queries s') = length (queries s) + k"
proof (induction k arbitrary: s)
  case 0 then show ?case by simp
next
  case (Suc k)
  then obtain s1 where a: "eval_step c imgs s = Some s1" and b: "run_steps c imgs k s1 = Some s'"
    by (auto split: bind_splits)
  from eval_step_Some[OF a] Suc.IH[OF b] show ?case by auto
qed


lemma eval_step_total:
  assumes "well_shaped c" and "binary_mask n (mask s)"
  shows "\<exists>s'. eval_step c imgs s = Some s'"
proof -
  let ?q = "querier c (test_inputs s) (mask s)"
  have "\<forall>row \<in> set (mask s). length row = QUERY_ALL"
    using assms(2) by (simp add: binary_mask_def)
  then have shape: "map length ?q = map length (mask s)"
    using assms(1) unfolding well_shaped_def by blast
  then have ql: "length ?q = length (mask s)" by (rule map_eq_imp_length_eq)
  have rows: "length (?q ! k) = QUERY_ALL \<and> length (mask s ! k) = QUERY_ALL"
    if "k < length (mask s)" for k
  proof -
    have "mask s ! k \<in> set (mask s)" using that by simp
    then have "length (mask s ! k) = QUERY_ALL" using assms(2) by (simp add: binary_mask_def)
    moreover have "map length ?q ! k = map length (mask s) ! k" using shape by simp
    ultimately show ?thesis using that ql by simp
  qed
  have "\<forall>row \<in> set ?q. row \<noteq> []"
  proof
    fix row assume "row \<in> set ?q"
    then obtain k where "k < length ?q" "row = ?q ! k" by (auto simp: in_set_conv_nth)
    then have "length row = QUERY_ALL" using rows ql by simp
    then show "row \<noteq> []" by (auto simp: QUERY_ALL_def)
  qed
  then obtain idx where idx: "argmax_dim1 ?q = Some idx" using argmax_dim1_total by blast
  note f = argmax_dim1_Some[OF idx]
  have "idx ! k < length (mask s ! k)" if "k < length (mask s)" for k
    using f that ql rows[OF that] by auto
  then obtain m' where "index_put_ones (mask s) idx = Some m'"
    using index_put_ones_total[of idx "mask s"] f ql by auto
  with idx show ?thesis by (simp add: eval_step_def Let_def)
qed

lemma run_steps_total:
  "well_shaped c \<Longrightarrow> binary_mask n (mask s) \<Longrightarrow> \<exists>s'. run_steps c imgs k s = Some s'"
proof (induction k arbitrary: s)
  case 0 then show ?case by simp
next
  case (Suc k)
  from eval_step_total[OF Suc.prems] obtain s1 where a: "eval_step c imgs s = Some s1" by blast
  from binary_mask_step[OF Suc.prems(2) a] Suc.IH[OF Suc.prems(1)]
  obtain s' where "run_steps c imgs k s1 = Some s'" by blast
  with a show ?case by simp
qed

lemma rollout_total:
  assumes "well_shaped c"
  shows "\<exists>s. rollout c T imgs prior = Some s"
  unfolding rollout_def using run_steps_total[OF assms binary_mask_init] by blast




lemma well_shaped_example: "well_shaped example_collaborators"
  by (simp add: well_shaped_def example_collaborators_def comp_def)

subsection \<open>C3: the mask only grows\<close>

text \<open>
  C3: in every evaluation rollout the query mask is non-decreasing step over step. For
  the state \<open>s\<close> reached after any number \<open>i\<close> of steps and the state \<open>s'\<close> that one
  more pass through the loop body yields, the mask keeps its shape, no entry decreases,
  every entry that was 1 is still 1, and an entry that changed became 1: this holds for
  every sample and every step.
\<close>

theorem C3_mask_monotone:
  assumes "run_steps c imgs i (rollout_init imgs prior) = Some s"
    and "eval_step c imgs s = Some s'"
  shows "mask_grows (mask s) (mask s')"
  using mask_grows_step[OF binary_mask_run[OF binary_mask_init assms(1)] assms(2)] .

theorem C3_mask_monotone_witness:
  "\<exists>s s'. run_steps example_collaborators [[[[1]]]] 2 (rollout_init [[[[1]]]] None) = Some s \<and>
     eval_step example_collaborators [[[[1]]]] s = Some s' \<and> mask_grows (mask s) (mask s')"
proof -
  let ?init = "rollout_init [[[[1]]]] None"
  obtain s where s: "run_steps example_collaborators [[[[1]]]] 2 ?init = Some s"
    using run_steps_total[OF well_shaped_example binary_mask_init] by blast
  obtain s' where s': "eval_step example_collaborators [[[[1]]]] s = Some s'"
    using eval_step_total[OF well_shaped_example binary_mask_run[OF binary_mask_init s]] by blast
  from C3_mask_monotone[OF s s'] s s' show ?thesis by blast
qed

subsection \<open>C4: the size of the patch index space\<close>

text \<open>
  C4 as stated: in the reference configuration \<open>PATCH_SIZE\<close> divides the image
  dimensions evenly and \<open>QUERY_ALL\<close> is \<open>(28 / PATCH_SIZE) \<times> (28 / PATCH_SIZE)\<close>.
  It fails on the constants of \<^verbatim>\<open>main\<close>: 3 does not divide 28, and the tiling
  formula gives 81, not 676.
\<close>

theorem C4_tiling_formula_counterexample:
  "\<not> (PATCH_SIZE dvd MNIST_HEIGHT \<and> PATCH_SIZE dvd MNIST_WIDTH \<and>
      QUERY_ALL = tiling_patches MNIST_HEIGHT MNIST_WIDTH PATCH_SIZE)"
  by (simp add: PATCH_SIZE_def MNIST_HEIGHT_def MNIST_WIDTH_def QUERY_ALL_def
      tiling_patches_def)

text \<open>
  C4 as amended: \<open>QUERY_ALL = 676 = 26 \<times> 26\<close>, as the comment beside the constant says,
  is the number of positions of a \<open>3 \<times> 3\<close> window moving one pixel at a time over a
  \<open>28 \<times> 28\<close> image, \<open>(28 - 3 + 1) \<times> (28 - 3 + 1)\<close>; \<open>PATCH_SIZE = 3\<close> does not divide 28
  and the tiling formula would give \<open>9 \<times> 9 = 81\<close>.
\<close>

theorem C4_query_all_window_positions:
  "QUERY_ALL = 26 * 26 \<and>
   QUERY_ALL = window_positions MNIST_HEIGHT MNIST_WIDTH PATCH_SIZE \<and>
   \<not> PATCH_SIZE dvd MNIST_HEIGHT \<and> \<not> PATCH_SIZE dvd MNIST_WIDTH \<and>
   tiling_patches MNIST_HEIGHT MNIST_WIDTH PATCH_SIZE = 81"
  by (simp add: PATCH_SIZE_def MNIST_HEIGHT_def MNIST_WIDTH_def QUERY_ALL_def
      tiling_patches_def window_positions_def)

subsection \<open>The passes of the loop, one after the other\<close>

lemma run_steps_chain:
  "run_steps c imgs k s0 = Some s \<Longrightarrow>
     \<exists>states. length states = Suc k \<and> states ! 0 = s0 \<and> states ! k = s \<and>
       (\<forall>t < k. eval_step c imgs (states ! t) = Some (states ! Suc t))"
proof (induction k arbitrary: s0)
  case 0
  then show ?case by (intro exI[of _ "[s0]"]) simp
next
  case (Suc k)
  then obtain s1 where a: "eval_step c imgs s0 = Some s1" and b: "run_steps c imgs k s1 = Some s"
    by (auto split: bind_splits)
  from Suc.IH[OF b] obtain states where st: "length states = Suc k" "states ! 0 = s1"
    "states ! k = s" "\<forall>t < k. eval_step c imgs (states ! t) = Some (states ! Suc t)" by blast
  have "\<forall>t < Suc k. eval_step c imgs ((s0 # states) ! t) = Some ((s0 # states) ! Suc t)"
  proof (intro allI impI)
    fix t assume "t < Suc k"
    then show "eval_step c imgs ((s0 # states) ! t) = Some ((s0 # states) ! Suc t)"
      using a st(2,4) by (cases t) auto
  qed
  then show ?case using st by (intro exI[of _ "s0 # states"]) simp
qed

lemma chain_records:
  assumes "\<forall>t < k. eval_step c imgs (states ! t) = Some (states ! Suc t)" and "j \<le> k"
  shows "logits (states ! j) =
           logits (states ! 0) @ map (\<lambda>t. classifier c (test_inputs (states ! t))) [0..<j] \<and>
         queries (states ! j) =
           queries (states ! 0) @
             map (\<lambda>t. querier c (test_inputs (states ! t)) (mask (states ! t))) [0..<j]"
  using assms(2)
proof (induction j)
  case 0 then show ?case by simp
next
  case (Suc j)
  then have "eval_step c imgs (states ! j) = Some (states ! Suc j)" using assms(1) by simp
  from eval_step_Some[OF this] Suc show ?case by auto
qed

lemma rollout_trace:
  assumes "rollout c T imgs prior = Some s"
  shows "\<exists>states. length states = Suc (nat T) \<and> states ! 0 = rollout_init imgs prior \<and>
           states ! nat T = s \<and>
           (\<forall>t < nat T. eval_step c imgs (states ! t) = Some (states ! Suc t) \<and>
              logits s ! t = classifier c (test_inputs (states ! t)) \<and>
              queries s ! t = querier c (test_inputs (states ! t)) (mask (states ! t)))"
proof -
  from run_steps_chain[OF assms[unfolded rollout_def]] obtain states where
    st: "length states = Suc (nat T)" "states ! 0 = rollout_init imgs prior" "states ! nat T = s"
    "\<forall>t < nat T. eval_step c imgs (states ! t) = Some (states ! Suc t)" by blast
  from chain_records[OF st(4), of "nat T"] st(2,3)
  have r: "logits s = map (\<lambda>t. classifier c (test_inputs (states ! t))) [0..<nat T]"
    "queries s = map (\<lambda>t. querier c (test_inputs (states ! t)) (mask (states ! t))) [0..<nat T]"
    by (simp_all add: rollout_init_def)
  have "\<forall>t < nat T. eval_step c imgs (states ! t) = Some (states ! Suc t) \<and>
              logits s ! t = classifier c (test_inputs (states ! t)) \<and>
              queries s ! t = querier c (test_inputs (states ! t)) (mask (states ! t))"
    using st(4) r by simp
  with st show ?thesis by blast
qed

subsection \<open>The probe collaborators at work\<close>

lemma well_shaped_probe: "well_shaped probe_collaborators"
  by (simp add: well_shaped_def probe_collaborators_def comp_def)

lemma argmax_from_skip:
  "\<forall>x \<in> set xs. \<not> b < x \<Longrightarrow> argmax_from b bi i (xs @ ys) = argmax_from b bi (i + length xs) ys"
  by (induction xs arbitrary: i) simp_all

lemma argmax_first_one: "argmax (replicate j 0 @ replicate (Suc n) 1) = Some j"
proof (cases j)
  case 0
  have "argmax_from 1 0 1 (replicate n 1 @ []) = argmax_from 1 0 (1 + length (replicate n (1::real))) []"
    by (rule argmax_from_skip) simp
  then show ?thesis using 0 by (simp add: argmax_def)
next
  case (Suc j')
  have a: "argmax_from 0 0 1 (replicate j' 0 @ (1 # replicate n 1)) =
        argmax_from 0 0 (1 + length (replicate j' (0::real))) (1 # replicate n 1)"
    by (rule argmax_from_skip) simp
  have b: "argmax_from 1 (Suc j') (Suc (Suc j')) (replicate n 1 @ []) =
        argmax_from 1 (Suc j') (Suc (Suc j') + length (replicate n (1::real))) []"
    by (rule argmax_from_skip) simp
  show ?thesis using Suc a b by (simp add: argmax_def)
qed

lemma argmax_dim1_replicate:
  "argmax row = Some j \<Longrightarrow> argmax_dim1 (replicate N row) = Some (replicate N j)"
  by (induction N) simp_all

lemma index_put_ones_replicate:
  "j < length row \<Longrightarrow> index_put_ones (replicate N row) (replicate N j) = Some (replicate N (row[j := 1]))"
  by (induction N) simp_all

lemma reveal_next: "(replicate j 1 @ replicate (Suc n) 0)[j := 1] = replicate (Suc j) (1::real) @ replicate n 0"
  by (simp add: list_update_append replicate_append_same)

lemma probe_step:
  assumes "eval_step probe_collaborators imgs s = Some s'"
    and "mask s = replicate N (replicate j 1 @ replicate (Suc n) 0)"
  shows "mask s' = replicate N (replicate (Suc j) 1 @ replicate n 0) \<and>
         test_inputs s' = add_images (test_inputs s) imgs"
proof -
  let ?q = "querier probe_collaborators (test_inputs s) (mask s)"
  have q: "?q = replicate N (replicate j 0 @ replicate (Suc n) 1)"
    by (simp add: probe_collaborators_def assms(2))
  have idx: "argmax_dim1 ?q = Some (replicate N j)"
    unfolding q by (rule argmax_dim1_replicate) (rule argmax_first_one)
  have put: "index_put_ones (mask s) (replicate N j) = Some (replicate N (replicate (Suc j) 1 @ replicate n 0))"
    unfolding assms(2) using index_put_ones_replicate[of j "replicate j 1 @ replicate (Suc n) 0" N]
    by (simp add: reveal_next del: replicate_Suc)
  from eval_step_Some[OF assms(1)] idx put show ?thesis
    by (auto simp: probe_collaborators_def)
qed

lemma probe_states:
  assumes "run_steps probe_collaborators [[[[5]]]] k (rollout_init [[[[5]]]] prior) = Some s"
    and "k \<le> QUERY_ALL"
  shows "mask s = [replicate k 1 @ replicate (QUERY_ALL - k) 0] \<and> test_inputs s = [[[[5 * real k]]]]"
  using assms
proof (induction k arbitrary: s)
  case 0
  then show ?case by (auto simp: rollout_init_def zeros_def zeros_like_def)
next
  case (Suc k)
  from Suc.prems(1) obtain s1 where
    s1: "run_steps probe_collaborators [[[[5]]]] k (rollout_init [[[[5]]]] prior) = Some s1"
    and st: "eval_step probe_collaborators [[[[5]]]] s1 = Some s"
    using run_steps_add[of probe_collaborators "[[[[5]]]]" k 1 "rollout_init [[[[5]]]] prior"]
    by (auto split: bind_splits)
  from Suc.IH[OF s1] Suc.prems(2)
  have ih: "mask s1 = [replicate k 1 @ replicate (QUERY_ALL - k) 0]" "test_inputs s1 = [[[[5 * real k]]]]"
    by simp_all
  obtain n where n: "QUERY_ALL - k = Suc n" "QUERY_ALL - Suc k = n"
    using Suc.prems(2) by (cases "QUERY_ALL - k") auto
  have "mask s1 = replicate 1 (replicate k 1 @ replicate (Suc n) 0)" using ih(1) n by simp
  from probe_step[OF st this] ih(2) n show ?case
    by (simp add: add_images_def algebra_simps)
qed

lemma chain_run:
  assumes "\<forall>t < k. eval_step c imgs (states ! t) = Some (states ! Suc t)" and "j \<le> k"
  shows "run_steps c imgs j (states ! 0) = Some (states ! j)"
  using assms(2)
proof (induction j)
  case 0 then show ?case by simp
next
  case (Suc j)
  then have "eval_step c imgs (states ! j) = Some (states ! Suc j)" using assms(1) by simp
  moreover have "run_steps c imgs j (states ! 0) = Some (states ! j)" using Suc by simp
  ultimately show ?case using run_steps_add[of c imgs j 1 "states ! 0"] by simp
qed

subsection \<open>C8: a rollout runs all its steps\<close>

text \<open>
  C8: every evaluation rollout runs exactly \<open>max_queries_test\<close> acquisition steps, with
  no early exit. Whatever the classifier answers and whatever the mask holds, with a
  querier that returns scores of the mask's shape the loop completes, and its run is a
  chain of exactly \<open>max_queries_test\<close> passes through the loop body: the states
  \<open>states ! 0\<close>, the initial one, up to \<open>states ! max_queries_test\<close>, the returned one,
  are linked pass by pass by \<open>eval_step\<close>. The pass \<open>t\<close> records the classifier's logits
  and the querier's query vector of the state before it, writes a one into the mask at
  the arg-max patch of every sample, and updates the partial image with that query
  vector. The recorded lists \<open>logits\<close> and \<open>queries\<close> each have exactly
  \<open>max_queries_test\<close> entries.
\<close>

theorem C8_rollout_runs_all_steps:
  assumes "well_shaped c" and "0 \<le> T"
  shows "\<exists>s states. rollout c T imgs prior = Some s \<and>
           int (length (logits s)) = T \<and> int (length (queries s)) = T \<and>
           length states = Suc (nat T) \<and> states ! 0 = rollout_init imgs prior \<and>
           states ! nat T = s \<and>
           (\<forall>t < nat T.
              eval_step c imgs (states ! t) = Some (states ! Suc t) \<and>
              logits s ! t = classifier c (test_inputs (states ! t)) \<and>
              queries s ! t = querier c (test_inputs (states ! t)) (mask (states ! t)) \<and>
              test_inputs (states ! Suc t) =
                update_masked_image c (test_inputs (states ! t)) imgs (queries s ! t) PATCH_SIZE \<and>
              (\<exists>idx. argmax_dim1 (queries s ! t) = Some idx \<and>
                 index_put_ones (mask (states ! t)) idx = Some (mask (states ! Suc t))))"
proof -
  obtain s where s: "rollout c T imgs prior = Some s"
    using rollout_total[OF assms(1)] by blast
  have len: "int (length (logits s)) = T \<and> int (length (queries s)) = T"
    using run_steps_lengths[OF s[unfolded rollout_def]] assms(2) by (simp add: rollout_init_def)
  from rollout_trace[OF s] obtain states where
    st: "length states = Suc (nat T)" "states ! 0 = rollout_init imgs prior" "states ! nat T = s"
    and tr: "\<forall>t < nat T. eval_step c imgs (states ! t) = Some (states ! Suc t) \<and>
              logits s ! t = classifier c (test_inputs (states ! t)) \<and>
              queries s ! t = querier c (test_inputs (states ! t)) (mask (states ! t))" by blast
  have "eval_step c imgs (states ! t) = Some (states ! Suc t) \<and>
        logits s ! t = classifier c (test_inputs (states ! t)) \<and>
        queries s ! t = querier c (test_inputs (states ! t)) (mask (states ! t)) \<and>
        test_inputs (states ! Suc t) =
          update_masked_image c (test_inputs (states ! t)) imgs (queries s ! t) PATCH_SIZE \<and>
        (\<exists>idx. argmax_dim1 (queries s ! t) = Some idx \<and>
           index_put_ones (mask (states ! t)) idx = Some (mask (states ! Suc t)))"
    if "t < nat T" for t
  proof -
    from tr that have e: "eval_step c imgs (states ! t) = Some (states ! Suc t)"
      and l: "logits s ! t = classifier c (test_inputs (states ! t))"
      and q: "queries s ! t = querier c (test_inputs (states ! t)) (mask (states ! t))" by auto
    from eval_step_Some[OF e] e l q show ?thesis by auto
  qed
  with s len st show ?thesis by blast
qed

theorem C8_rollout_runs_all_steps_witness:
  "\<exists>s. rollout probe_collaborators 3 [[[[5]]]] None = Some s \<and>
       int (length (logits s)) = 3 \<and> int (length (queries s)) = 3 \<and>
       logits s ! 0 = [[0]] \<and> logits s ! 1 = [[5]] \<and> logits s ! 2 = [[10]] \<and>
       test_inputs s = [[[[15]]]] \<and> mask s = [replicate 3 1 @ replicate 673 0]"
proof -
  let ?init = "rollout_init [[[[5]]]] None"
  from C8_rollout_runs_all_steps[OF well_shaped_probe, of 3 "[[[[5]]]]" None]
  obtain s states where s: "rollout probe_collaborators 3 [[[[5]]]] None = Some s"
    and len: "int (length (logits s)) = 3" "int (length (queries s)) = 3"
    and st: "states ! 0 = ?init" "states ! nat 3 = s"
    and tr: "\<forall>t < nat 3.
              eval_step probe_collaborators [[[[5]]]] (states ! t) = Some (states ! Suc t) \<and>
              logits s ! t = classifier probe_collaborators (test_inputs (states ! t))"
    by auto
  have ch: "\<forall>t < 3. eval_step probe_collaborators [[[[5]]]] (states ! t) = Some (states ! Suc t)"
    using tr by simp
  have run: "run_steps probe_collaborators [[[[5]]]] j ?init = Some (states ! j)" if "j \<le> 3" for j
    using chain_run[OF ch that] st(1) by simp
  have q: "(j::nat) \<le> 3 \<Longrightarrow> j \<le> QUERY_ALL" for j by (simp add: QUERY_ALL_def)
  have p0: "test_inputs (states ! 0) = [[[[0]]]]"
    using probe_states[OF run[of 0] q] by simp
  have p1: "test_inputs (states ! 1) = [[[[5]]]]"
    using probe_states[OF run[of 1] q] by simp
  have p2: "test_inputs (states ! 2) = [[[[10]]]]"
    using probe_states[OF run[of 2] q] by simp
  have p3: "test_inputs (states ! 3) = [[[[15]]]]" "mask (states ! 3) = [replicate 3 1 @ replicate 673 0]"
    using probe_states[OF run[of 3] q] by (simp_all add: QUERY_ALL_def)
  have l: "logits s ! 0 = [[0]]" "logits s ! 1 = [[5]]" "logits s ! 2 = [[10]]"
    using tr p0 p1 p2 by (simp_all add: probe_collaborators_def)
  from s len l p3 st(2) show ?thesis by auto
qed


subsection \<open>C10: the classifier sees the image before the step's patch is revealed\<close>



subsection \<open>The stopping criterion\<close>

lemma first_crossing_Some:
  "first_crossing th ps = Some t \<Longrightarrow>
     \<exists>i < length ps. t = Suc i \<and> th < ps ! i \<and> (\<forall>j < i. \<not> th < ps ! j)"
proof (induction ps arbitrary: t)
  case Nil then show ?case by simp
next
  case (Cons p ps)
  show ?case
  proof (cases "th < p")
    case True
    with Cons.prems show ?thesis by auto
  next
    case False
    with Cons.prems obtain t' where t': "first_crossing th ps = Some t'" and t: "t = Suc t'"
      by auto
    from Cons.IH[OF t'] obtain i where i: "i < length ps" "t' = Suc i" "th < ps ! i"
      "\<forall>j < i. \<not> th < ps ! j" by blast
    have "\<forall>j < Suc i. \<not> th < (p # ps) ! j"
      using False i(4) by (auto simp: nth_Cons split: nat.splits)
    with i t show ?thesis by (intro exI[of _ "Suc i"]) simp
  qed
qed

lemma first_crossing_None:
  "first_crossing th ps = None \<Longrightarrow> \<forall>i < length ps. \<not> th < ps ! i"
proof (induction ps)
  case Nil then show ?case by simp
next
  case (Cons p ps)
  then have np: "\<not> th < p" and r: "first_crossing th ps = None" by (auto split: if_splits)
  from Cons.IH[OF r] np show ?case by (auto simp: nth_Cons split: nat.splits)
qed

lemma max_class_prob_Max: "ps \<noteq> [] \<Longrightarrow> max_class_prob ps = Max (set ps)"
proof (cases ps)
  case Nil then show "ps \<noteq> [] \<Longrightarrow> ?thesis" by simp
next
  case (Cons a list)
  have "Max (set (a # list)) = fold max list a" by (rule Max.set_eq_fold)
  then show ?thesis using Cons by (simp add: max_class_prob_def)
qed

lemma queries_needed_sample_spec:
  fixes sm th steps
  defines "probs \<equiv> map (\<lambda>l. max_class_prob (sm l)) steps"
  defines "q \<equiv> queries_needed_sample sm th steps"
  shows "if \<exists>i < length steps. th < probs ! i
         then \<exists>i < length steps. q = Suc i \<and> th < probs ! i \<and> (\<forall>j < i. \<not> th < probs ! j)
         else q = length steps"
proof (cases "first_crossing th probs")
  case None
  from first_crossing_None[OF None] have "\<not> (\<exists>i < length steps. th < probs ! i)"
    unfolding probs_def by simp
  moreover have "q = length steps" using None by (simp add: q_def queries_needed_sample_def probs_def)
  ultimately show ?thesis by (simp only: if_False)
next
  case (Some t)
  from first_crossing_Some[OF Some] obtain i where f: "i < length steps" "t = Suc i" "th < probs ! i"
    "\<forall>j < i. \<not> th < probs ! j" unfolding probs_def by auto
  moreover have "q = t" using Some by (simp add: q_def queries_needed_sample_def probs_def)
  ultimately show ?thesis by auto
qed

lemma queries_needed_sample_bounds:
  "steps \<noteq> [] \<Longrightarrow> 1 \<le> queries_needed_sample sm th steps \<and> queries_needed_sample sm th steps \<le> length steps"
  using queries_needed_sample_spec[of steps th sm]
  by (cases steps) (auto split: if_splits)

lemma scenario:
  assumes "map (\<lambda>l. max_class_prob (sm l)) steps = [0.2, 0.4, 0.6, 0.91, 0.95]"
  shows "compute_queries_needed sm [steps] 0.85 = Some [4]"
  using assms by (simp add: compute_queries_needed_def queries_needed_sample_def)

subsection \<open>C1: the stopping criterion returns the first crossing\<close>

text \<open>
  C1: for a threshold in \<open>(0, 1]\<close> and every sample \<open>n\<close>, \<open>compute_queries_needed\<close>
  returns the smallest 1-based step \<open>Suc i\<close> at which the maximum class probability
  exceeds the threshold, and the number of steps \<open>T\<close> (which is \<open>max_queries_test\<close>)
  when no step's maximum does. The maximum class probability of a non-empty vector is
  its greatest entry. In particular, a sample whose maximum class probabilities are
  \<open>[0.2, 0.4, 0.6, 0.91, 0.95]\<close> gets 4 at the threshold 0.85.
\<close>

theorem C1_queries_needed_first_crossing:
  assumes "0 < th" and "th \<le> 1"
  shows "\<exists>qs. compute_queries_needed sm lg th = Some qs \<and> length qs = length lg \<and>
     (\<forall>n < length lg.
        (let probs = map (\<lambda>l. max_class_prob (sm l)) (lg ! n); T = length (lg ! n) in
           (if \<exists>i < T. th < probs ! i
            then \<exists>i < T. qs ! n = Suc i \<and> th < probs ! i \<and> (\<forall>j < i. \<not> th < probs ! j)
            else qs ! n = T))) \<and>
     (\<forall>ps. ps \<noteq> [] \<longrightarrow> max_class_prob ps = Max (set ps)) \<and>
     (\<forall>steps. map (\<lambda>l. max_class_prob (sm l)) steps = [0.2, 0.4, 0.6, 0.91, 0.95] \<longrightarrow>
        compute_queries_needed sm [steps] 0.85 = Some [4])"
proof -
  let ?qs = "map (queries_needed_sample sm th) lg"
  have a: "compute_queries_needed sm lg th = Some ?qs"
    using assms by (simp add: compute_queries_needed_def)
  have b: "\<forall>n < length lg.
        (let probs = map (\<lambda>l. max_class_prob (sm l)) (lg ! n); T = length (lg ! n) in
           (if \<exists>i < T. th < probs ! i
            then \<exists>i < T. ?qs ! n = Suc i \<and> th < probs ! i \<and> (\<forall>j < i. \<not> th < probs ! j)
            else ?qs ! n = T))"
  proof (intro allI impI)
    fix n assume "n < length lg"
    then have "?qs ! n = queries_needed_sample sm th (lg ! n)" by simp
    then show "let probs = map (\<lambda>l. max_class_prob (sm l)) (lg ! n); T = length (lg ! n) in
           (if \<exists>i < T. th < probs ! i
            then \<exists>i < T. ?qs ! n = Suc i \<and> th < probs ! i \<and> (\<forall>j < i. \<not> th < probs ! j)
            else ?qs ! n = T)"
      unfolding Let_def using queries_needed_sample_spec[of "lg ! n" th sm] by presburger
  qed
  have c: "\<forall>ps. ps \<noteq> [] \<longrightarrow> max_class_prob ps = Max (set ps)"
    using max_class_prob_Max by blast
  have d: "\<forall>steps. map (\<lambda>l. max_class_prob (sm l)) steps = [0.2, 0.4, 0.6, 0.91, 0.95] \<longrightarrow>
        compute_queries_needed sm [steps] 0.85 = Some [4]"
    by (intro allI impI) (rule scenario)
  have e: "length ?qs = length lg" by simp
  from a e b c d show ?thesis by blast
qed

theorem C1_queries_needed_first_crossing_witness:
  "(0::real) < 0.85 \<and> (0.85::real) \<le> 1 \<and>
   compute_queries_needed (\<lambda>l. l)
     [[[0.2, 0.2, 0.2, 0.2, 0.2], [0.4, 0.3, 0.1, 0.1, 0.1], [0.6, 0.1, 0.1, 0.1, 0.1],
       [0.91, 0.03, 0.02, 0.02, 0.02], [0.95, 0.02, 0.01, 0.01, 0.01]]] 0.85 = Some [4]"
proof -
  have h: "(0::real) < 0.85" "(0.85::real) \<le> 1" by simp_all
  from C1_queries_needed_first_crossing[OF h, of "\<lambda>l. l" "[]"]
  have "\<forall>steps. map (\<lambda>l. max_class_prob l) steps = [0.2, 0.4, 0.6, 0.91, 0.95] \<longrightarrow>
        compute_queries_needed (\<lambda>l. l) [steps] 0.85 = Some [4]" by simp
  then show ?thesis by (simp add: max_class_prob_def)
qed

subsection \<open>The statistics of a test batch\<close>

lemma stack_permute_Some:
  "stack_permute ls = Some lg \<Longrightarrow>
     ls \<noteq> [] \<and> length lg = length (hd ls) \<and> (\<forall>n < length lg. length (lg ! n) = length ls)"
  by (auto simp: stack_permute_def split: list.splits if_splits)

lemma gather_steps_in_bounds:
  "length qn \<le> length lg \<Longrightarrow> \<forall>n < length qn. 1 \<le> qn ! n \<and> qn ! n \<le> length (lg ! n) \<Longrightarrow>
     gather_steps lg (map (\<lambda>q. int q - 1) qn) = Some (map (\<lambda>(l, q). l ! (q - 1)) (zip lg qn))"
proof (induction lg "map (\<lambda>q. int q - 1) qn" arbitrary: qn rule: gather_steps.induct)
  case (1 ls)
  then show ?case by simp
next
  case (2 i js)
  then show ?case by auto
next
  case (3 l ls i js)
  then obtain q qs where qn: "qn = q # qs" "i = int q - 1" "js = map (\<lambda>q. int q - 1) qs" by auto
  have q: "1 \<le> q \<and> q \<le> length l" using 3(4) qn by auto
  have rest: "\<forall>n < length qs. 1 \<le> qs ! n \<and> qs ! n \<le> length (ls ! n)"
    using 3(4) qn by auto
  have len: "length qs \<le> length ls" using 3(3) qn by simp
  have p: "py_index l i = Some (l ! (q - 1))"
    using q qn by (auto simp: py_index_def nat_diff_distrib')
  from 3(1)[OF p qn(3) len rest] p qn show ?case by simp
qed

lemma example_run:
  "run_steps example_collaborators imgs k s = Some s' \<Longrightarrow>
     test_inputs s' = test_inputs s \<and>
     logits s' = logits s @ replicate k (map (\<lambda>_. [1, 0]) (test_inputs s)) \<and>
     (0 < k \<longrightarrow> label_logits s' = Some (map (\<lambda>_. [1, 0]) (test_inputs s)))"
proof (induction k arbitrary: s)
  case 0 then show ?case by simp
next
  case (Suc k)
  then obtain s1 where a: "eval_step example_collaborators imgs s = Some s1"
    and b: "run_steps example_collaborators imgs k s1 = Some s'"
    by (auto split: bind_splits)
  from eval_step_Some[OF a] have e: "test_inputs s1 = test_inputs s"
    "logits s1 = logits s @ [map (\<lambda>_. [1, 0]) (test_inputs s)]"
    "label_logits s1 = Some (map (\<lambda>_. [1, 0]) (test_inputs s))"
    by (auto simp: example_collaborators_def)
  from Suc.IH[OF b] e b show ?case
    by (cases k) (auto simp: replicate_append_same)
qed

lemma example_rollout:
  "\<exists>s. rollout example_collaborators T imgs prior = Some s \<and>
     logits s = replicate (nat T) (map (\<lambda>_. [1, 0]) imgs) \<and>
     (0 < T \<longrightarrow> label_logits s = Some (map (\<lambda>_. [1, 0]) imgs))"
proof -
  obtain s where s: "rollout example_collaborators T imgs prior = Some s"
    using rollout_total[OF well_shaped_example] by blast
  from example_run[OF s[unfolded rollout_def]] s show ?thesis
    by (auto simp: rollout_init_def zeros_like_def)
qed

lemma eval_step_prior: "eval_step c imgs (s\<lparr>label_logits := x\<rparr>) = eval_step c imgs s"
  by (simp add: eval_step_def)

lemma rollout_prior: "0 < T \<Longrightarrow> rollout c T imgs p = rollout c T imgs p'"
proof -
  assume "0 < T"
  then obtain k where k: "nat T = Suc k" by (cases "nat T") auto
  have "rollout_init imgs p = (rollout_init imgs p')\<lparr>label_logits := p\<rparr>"
    by (simp add: rollout_init_def)
  then have "eval_step c imgs (rollout_init imgs p) = eval_step c imgs (rollout_init imgs p')"
    using eval_step_prior by metis
  then show ?thesis by (simp add: rollout_def k)
qed

lemma eval_batch_nonpos: "T \<le> 0 \<Longrightarrow> eval_batch c T L sc b = None"
  by (cases b) (auto simp: eval_batch_def rollout_def rollout_init_def stack_permute_def
      split: bind_splits)

lemma eval_batch_scope: "eval_batch c T L sc b = eval_batch c T L sc' b"
proof (cases "0 < T")
  case True
  obtain imgs labels where b: "b = (imgs, labels)" by (cases b)
  from rollout_prior[OF True, of c imgs "v_label_logits sc" "v_label_logits sc'"]
  show ?thesis by (simp add: eval_batch_def b)
next
  case False
  then show ?thesis by (simp add: eval_batch_nonpos)
qed

lemma eval_batch_stats:
  assumes "eval_batch c T L sc b = Some sc'"
  shows "L \<noteq> 0 \<and> (\<exists>r. batch_statistics c T b = Some r \<and>
           v_stats sc' = Some \<lparr>acc_max = fmul (acc_max r) (real (length (fst b)) / real L),
                               acc_ip = fmul (acc_ip r) (real (length (fst b)) / real L),
                               qry_need_avg = fmul (qry_need_avg r) (real (length (fst b)) / real L),
                               qry_need_std = fmul (qry_need_std r) (real (length (fst b)) / real L)\<rparr>)"
proof -
  have "eval_batch c T L empty_scope b = Some sc'" using assms eval_batch_scope by metis
  then show ?thesis
    by (cases b) (auto simp: eval_batch_def batch_statistics_def empty_scope_def
        split: bind_splits if_splits)
qed

lemma eval_batches_snoc:
  "eval_batches c T L sc (bs @ [b]) = (eval_batches c T L sc bs \<bind> (\<lambda>sc1. eval_batch c T L sc1 b))"
  by (induction bs arbitrary: sc) (auto split: bind_splits)

lemma eval_log_last:
  assumes "eval_log c T L sc (bs @ [b]) = Some st"
  shows "\<exists>sc'. eval_batch c T L empty_scope b = Some sc' \<and> v_stats sc' = Some st"
proof -
  from assms obtain sc1 sc' where "eval_batch c T L sc1 b = Some sc'" "v_stats sc' = Some st"
    by (auto simp: eval_log_def eval_batches_snoc split: bind_splits)
  then show ?thesis using eval_batch_scope by metis
qed

subsection \<open>C2: the queries needed are within the steps that were run\<close>

text \<open>
  C2: the logits that the evaluation loop hands to \<open>compute_queries_needed\<close> are the
  stacked logits of a completed rollout, one entry per step and at least one
  (\<^verbatim>\<open>torch.stack\<close> refuses an empty list). Every value returned lies in
  \<open>[1, max_queries_test]\<close>, so the index \<open>queries_needed - 1\<close> is within the step
  dimension of every sample, non-negative and below its length: the indexing of line
  161 succeeds and reads exactly that step.
\<close>

theorem C2_queries_needed_bounded:
  assumes "rollout c T imgs prior = Some s"
    and "stack_permute (logits s) = Some lg"
    and "compute_queries_needed sm lg th = Some qn"
  shows "length qn = length lg \<and>
         (\<forall>q \<in> set qn. 1 \<le> int q \<and> int q \<le> T) \<and>
         (\<forall>n < length qn. 0 \<le> int (qn ! n) - 1 \<and> int (qn ! n) - 1 < int (length (lg ! n))) \<and>
         gather_steps lg (map (\<lambda>q. int q - 1) qn) = Some (map (\<lambda>(l, q). l ! (q - 1)) (zip lg qn))"
proof -
  note sp = stack_permute_Some[OF assms(2)]
  have "length (logits s) = nat T"
    using run_steps_lengths[of c imgs "nat T" "rollout_init imgs prior" s] assms(1)
    by (simp add: rollout_def rollout_init_def)
  moreover have "0 < length (logits s)" using sp by simp
  ultimately have T: "1 \<le> T" "int (length (logits s)) = T" by linarith+
  have qn: "qn = map (queries_needed_sample sm th) lg"
    using assms(3) by (auto simp: compute_queries_needed_def split: if_splits)
  have b: "1 \<le> qn ! n \<and> qn ! n \<le> length (lg ! n)" if "n < length qn" for n
  proof -
    have "lg ! n \<noteq> []" using sp that qn by auto
    from queries_needed_sample_bounds[OF this] show ?thesis using that qn by simp
  qed
  have l: "length qn = length lg" using qn by simp
  have r: "\<forall>q \<in> set qn. 1 \<le> int q \<and> int q \<le> T"
  proof
    fix q assume "q \<in> set qn"
    then obtain n where n: "n < length qn" "q = qn ! n" by (auto simp: in_set_conv_nth)
    then have "length (lg ! n) = length (logits s)" using sp l by simp
    with b[OF n(1)] n T show "1 \<le> int q \<and> int q \<le> T" by auto
  qed
  have i: "\<forall>n < length qn. 0 \<le> int (qn ! n) - 1 \<and> int (qn ! n) - 1 < int (length (lg ! n))"
    using b by fastforce
  have g: "gather_steps lg (map (\<lambda>q. int q - 1) qn) = Some (map (\<lambda>(l, q). l ! (q - 1)) (zip lg qn))"
    using gather_steps_in_bounds[of qn lg] b l by simp
  from l r i g show ?thesis by blast
qed

theorem C2_queries_needed_bounded_witness:
  "\<exists>s lg. rollout example_collaborators 2 [[[[1]]]] None = Some s \<and>
      stack_permute (logits s) = Some lg \<and>
      compute_queries_needed (softmax example_collaborators) lg THRESHOLD = Some [1] \<and>
      gather_steps lg (map (\<lambda>q. int q - 1) [1]) = Some (map (\<lambda>(l, q). l ! (q - 1)) (zip lg [1])) \<and>
      (1::int) \<le> int 1 \<and> int 1 \<le> (2::int)"
proof -
  obtain s where s: "rollout example_collaborators 2 [[[[1]]]] None = Some s"
    "logits s = [[[1, 0]], [[1, 0]]]"
    using example_rollout[of 2 "[[[[1]]]]" None] by (auto simp: numeral_2_eq_2)
  have lg: "stack_permute (logits s) = Some [[[1, 0], [1, 0]]]"
    by (simp add: s stack_permute_def)
  have qn: "compute_queries_needed (softmax example_collaborators) [[[1, 0], [1, 0]]] THRESHOLD = Some [1]"
    by (simp add: compute_queries_needed_def queries_needed_sample_def max_class_prob_def
        THRESHOLD_def example_collaborators_def)
  from C2_queries_needed_bounded[OF s(1) lg qn] s(1) lg qn show ?thesis by simp
qed

subsection \<open>A test set of two batches\<close>

lemma list_of_three: "length xs = 3 \<Longrightarrow> xs = [xs ! 0, xs ! 1, xs ! 2]"
  by (auto simp: length_Suc_conv numeral_3_eq_3)

lemma probe_rollout3:
  "\<exists>s. rollout probe_collaborators 3 imgs prior = Some s \<and>
     logits s = [map (\<lambda>img. concat (concat img)) (zeros_like imgs),
                 map (\<lambda>img. concat (concat img)) (add_images (zeros_like imgs) imgs),
                 map (\<lambda>img. concat (concat img)) (add_images (add_images (zeros_like imgs) imgs) imgs)] \<and>
     label_logits s =
       Some (map (\<lambda>img. concat (concat img)) (add_images (add_images (zeros_like imgs) imgs) imgs))"
proof -
  obtain s where s: "rollout probe_collaborators 3 imgs prior = Some s"
    using rollout_total[OF well_shaped_probe] by blast
  from rollout_trace[OF s] obtain states where
    st: "states ! 0 = rollout_init imgs prior" "states ! nat 3 = s"
    and tr: "\<forall>t < nat 3. eval_step probe_collaborators imgs (states ! t) = Some (states ! Suc t) \<and>
              logits s ! t = classifier probe_collaborators (test_inputs (states ! t))" by blast
  have e: "eval_step probe_collaborators imgs (states ! 0) = Some (states ! 1)"
    "eval_step probe_collaborators imgs (states ! 1) = Some (states ! 2)"
    "eval_step probe_collaborators imgs (states ! 2) = Some (states ! 3)"
    using tr by (simp_all add: numeral_3_eq_3 numeral_2_eq_2)
  have i0: "test_inputs (states ! 0) = zeros_like imgs" using st(1) by (simp add: rollout_init_def)
  have i1: "test_inputs (states ! 1) = add_images (zeros_like imgs) imgs"
    using eval_step_Some[OF e(1)] i0 by (auto simp: probe_collaborators_def)
  have i2: "test_inputs (states ! 2) = add_images (add_images (zeros_like imgs) imgs) imgs"
    using eval_step_Some[OF e(2)] i1 by (auto simp: probe_collaborators_def)
  have ll: "label_logits s =
       Some (map (\<lambda>img. concat (concat img)) (add_images (add_images (zeros_like imgs) imgs) imgs))"
    using eval_step_Some[OF e(3)] i2 st(2) by (auto simp: probe_collaborators_def)
  have len: "length (logits s) = 3"
    using run_steps_lengths[OF s[unfolded rollout_def]] by (simp add: rollout_init_def)
  have l: "logits s ! 0 = map (\<lambda>img. concat (concat img)) (zeros_like imgs)"
    "logits s ! 1 = map (\<lambda>img. concat (concat img)) (add_images (zeros_like imgs) imgs)"
    "logits s ! 2 = map (\<lambda>img. concat (concat img)) (add_images (add_images (zeros_like imgs) imgs) imgs)"
    using tr i0 i1 i2 by (simp_all add: probe_collaborators_def)
  have "logits s = [logits s ! 0, logits s ! 1, logits s ! 2]"
    using len by (rule list_of_three)
  with l ll s show ?thesis by auto
qed

lemma std_of_one: "std [x] = NaN"
  by (simp add: std_def)

lemma std_3_2: "std [3, 2] = Val (sqrt (1 / 2))"
  by (simp add: std_def Let_def power2_eq_square)

lemma probe_batch_statistics_last:
  "batch_statistics probe_collaborators 3 ([[[[0.5, 0.1]]], [[[0.1, 0.9]]]], [0, 0]) =
     Some \<lparr>acc_max = Val (1 / 2), acc_ip = Val (1 / 2),
           qry_need_avg = Val (5 / 2), qry_need_std = Val (sqrt (1 / 2))\<rparr>"
proof -
  obtain s where s: "rollout probe_collaborators 3 [[[[0.5, 0.1]]], [[[0.1, 0.9]]]] None = Some s"
    "logits s = [[[0, 0], [0, 0]], [[0.5, 0.1], [0.1, 0.9]], [[1, 0.2], [0.2, 1.8]]]"
    "label_logits s = Some [[1, 0.2], [0.2, 1.8]]"
    using probe_rollout3[of "[[[[0.5, 0.1]]], [[[0.1, 0.9]]]]" None]
    by (auto simp: zeros_like_def add_images_def)
  have sm: "softmax probe_collaborators = (\<lambda>l. l)" by (simp add: probe_collaborators_def)
  have "std (map real [3, 2]) = Val (sqrt (1 / 2))" using std_3_2 by simp
  then show ?thesis
    unfolding batch_statistics_def prod.case s(1)
    by (simp add: s(2,3) sm argmax_def eq_float_def stack_permute_def
        compute_queries_needed_def queries_needed_sample_def max_class_prob_def THRESHOLD_def
        py_index_def mean_def upt_rec)
qed

lemma probe_batch_statistics_first:
  "batch_statistics probe_collaborators 3
     ([[[[0.5, 0.1]]], [[[0.5, 0.1]]], [[[0.5, 0.1]]]], [0, 0, 0]) =
     Some \<lparr>acc_max = Val 1, acc_ip = Val 1, qry_need_avg = Val 3, qry_need_std = Val 0\<rparr>"
proof -
  obtain s where s: "rollout probe_collaborators 3
        [[[[0.5, 0.1]]], [[[0.5, 0.1]]], [[[0.5, 0.1]]]] None = Some s"
    "logits s = [[[0, 0], [0, 0], [0, 0]], [[0.5, 0.1], [0.5, 0.1], [0.5, 0.1]],
                 [[1, 0.2], [1, 0.2], [1, 0.2]]]"
    "label_logits s = Some [[1, 0.2], [1, 0.2], [1, 0.2]]"
    using probe_rollout3[of "[[[[0.5, 0.1]]], [[[0.5, 0.1]]], [[[0.5, 0.1]]]]" None]
    by (auto simp: zeros_like_def add_images_def)
  have sm: "softmax probe_collaborators = (\<lambda>l. l)" by (simp add: probe_collaborators_def)
  show ?thesis
    unfolding batch_statistics_def prod.case s(1)
    by (simp add: s(2,3) sm argmax_def eq_float_def stack_permute_def
        compute_queries_needed_def queries_needed_sample_def max_class_prob_def THRESHOLD_def
        py_index_def mean_def std_def upt_rec)
qed

lemma batch_statistics_nonpos: "T \<le> 0 \<Longrightarrow> batch_statistics c T b = None"
  by (cases b) (auto simp: batch_statistics_def rollout_def rollout_init_def stack_permute_def
      split: bind_splits)

lemma eval_batch_of_statistics:
  assumes "batch_statistics c T b = Some r" and "L \<noteq> 0"
  shows "\<exists>sc'. eval_batch c T L sc b = Some sc' \<and>
           v_stats sc' = Some \<lparr>acc_max = fmul (acc_max r) (real (length (fst b)) / real L),
                               acc_ip = fmul (acc_ip r) (real (length (fst b)) / real L),
                               qry_need_avg = fmul (qry_need_avg r) (real (length (fst b)) / real L),
                               qry_need_std = fmul (qry_need_std r) (real (length (fst b)) / real L)\<rparr>"
proof -
  have "0 < T" using assms(1) batch_statistics_nonpos[of T c b] by (cases "0 < T") auto
  obtain imgs labels where b: "b = (imgs, labels)" by (cases b)
  have e: "eval_batch c T L sc b = eval_batch c T L empty_scope b" by (rule eval_batch_scope)
  show ?thesis
    unfolding e using assms
    by (auto simp: b eval_batch_def batch_statistics_def empty_scope_def split: bind_splits)
qed

lemma probe_eval_log_exists:
  "\<exists>st. eval_log probe_collaborators 3 5 empty_scope
      ([([[[[0.5, 0.1]]], [[[0.5, 0.1]]], [[[0.5, 0.1]]]], [0, 0, 0])] @
       [([[[[0.5, 0.1]]], [[[0.1, 0.9]]]], [0, 0])]) = Some st"
proof -
  have five: "(5::nat) \<noteq> 0" by simp
  from eval_batch_of_statistics[OF probe_batch_statistics_first five, of empty_scope]
  obtain sc1 where sc1: "eval_batch probe_collaborators 3 5 empty_scope
      ([[[[0.5, 0.1]]], [[[0.5, 0.1]]], [[[0.5, 0.1]]]], [0, 0, 0]) = Some sc1" by blast
  from eval_batch_of_statistics[OF probe_batch_statistics_last five, of sc1]
  obtain sc2 st where sc2: "eval_batch probe_collaborators 3 5 sc1
      ([[[[0.5, 0.1]]], [[[0.1, 0.9]]]], [0, 0]) = Some sc2" "v_stats sc2 = Some st" by blast
  show ?thesis
    unfolding eval_log_def append.simps eval_batches.simps sc1 Option.bind.simps sc2(1)
    by (simp add: sc2(2))
qed

lemma probe_global_acc_max:
  "global_acc_max probe_collaborators 3 5
      [([[[[0.5, 0.1]]], [[[0.5, 0.1]]], [[[0.5, 0.1]]]], [0, 0, 0]),
       ([[[[0.5, 0.1]]], [[[0.1, 0.9]]]], [0, 0])] = Some (4 / 5)"
  unfolding global_acc_max.simps probe_batch_statistics_first probe_batch_statistics_last
  by simp

subsection \<open>C9: the logged metrics are those of the last test batch\<close>

text \<open>
  C9: when an evaluation over the batches \<open>bs @ [b]\<close> completes, each of the logged
  metrics \<open>test_acc_max\<close>, \<open>test_acc_ip\<close>, \<open>qry_need_avg\<close> and \<open>qry_need_std\<close> is
  the statistic of the final batch \<open>b\<close> alone, times \<open>N / len(testset)\<close> with \<open>N\<close> the
  size of \<open>b\<close> (a statistic that is \<^verbatim>\<open>nan\<close> is logged as \<^verbatim>\<open>nan\<close>). The earlier batches
  contribute nothing: whatever they are, and whatever the variables held before, an
  evaluation that ends with \<open>b\<close> logs the same values. So the logged value is not the
  mean over the test set: for a test set of five images in a batch of three, all
  classified rightly, and a batch of two, one of them classified rightly,
  \<open>test_acc_max\<close> is logged as \<open>1/2 * 2/5 = 1/5\<close> while \<open>4/5\<close> of the test set are
  classified rightly.
\<close>

theorem C9_logged_metrics_last_batch:
  assumes "eval_log c T L sc (bs @ [b]) = Some st"
  shows "(\<exists>r. batch_statistics c T b = Some r \<and>
            acc_max st = fmul (acc_max r) (real (length (fst b)) / real L) \<and>
            acc_ip st = fmul (acc_ip r) (real (length (fst b)) / real L) \<and>
            qry_need_avg st = fmul (qry_need_avg r) (real (length (fst b)) / real L) \<and>
            qry_need_std st = fmul (qry_need_std r) (real (length (fst b)) / real L)) \<and>
         (\<forall>sc' bs' st'. eval_log c T L sc' (bs' @ [b]) = Some st' \<longrightarrow> st' = st) \<and>
         (\<exists>st2. eval_log probe_collaborators 3 5 empty_scope
                   [([[[[0.5, 0.1]]], [[[0.5, 0.1]]], [[[0.5, 0.1]]]], [0, 0, 0]),
                    ([[[[0.5, 0.1]]], [[[0.1, 0.9]]]], [0, 0])] = Some st2 \<and>
                 acc_max st2 = Val (1 / 5)) \<and>
         global_acc_max probe_collaborators 3 5
            [([[[[0.5, 0.1]]], [[[0.5, 0.1]]], [[[0.5, 0.1]]]], [0, 0, 0]),
             ([[[[0.5, 0.1]]], [[[0.1, 0.9]]]], [0, 0])] = Some (4 / 5)"
proof -
  from eval_log_last[OF assms] obtain sc1 where
    sc1: "eval_batch c T L empty_scope b = Some sc1" "v_stats sc1 = Some st" by blast
  from eval_batch_stats[OF sc1(1)] sc1(2)
  have a: "\<exists>r. batch_statistics c T b = Some r \<and>
            acc_max st = fmul (acc_max r) (real (length (fst b)) / real L) \<and>
            acc_ip st = fmul (acc_ip r) (real (length (fst b)) / real L) \<and>
            qry_need_avg st = fmul (qry_need_avg r) (real (length (fst b)) / real L) \<and>
            qry_need_std st = fmul (qry_need_std r) (real (length (fst b)) / real L)"
    by auto
  have b: "\<forall>sc' bs' st'. eval_log c T L sc' (bs' @ [b]) = Some st' \<longrightarrow> st' = st"
  proof (intro allI impI)
    fix sc' bs' st' assume "eval_log c T L sc' (bs' @ [b]) = Some st'"
    from eval_log_last[OF this] sc1 show "st' = st" by auto
  qed
  have c: "\<exists>st2. eval_log probe_collaborators 3 5 empty_scope
                   [([[[[0.5, 0.1]]], [[[0.5, 0.1]]], [[[0.5, 0.1]]]], [0, 0, 0]),
                    ([[[[0.5, 0.1]]], [[[0.1, 0.9]]]], [0, 0])] = Some st2 \<and>
                 acc_max st2 = Val (1 / 5)"
  proof -
    from probe_eval_log_exists obtain st2 where
      e: "eval_log probe_collaborators 3 5 empty_scope
           ([([[[[0.5, 0.1]]], [[[0.5, 0.1]]], [[[0.5, 0.1]]]], [0, 0, 0])] @
            [([[[[0.5, 0.1]]], [[[0.1, 0.9]]]], [0, 0])]) = Some st2" by blast
    from eval_log_last[OF e] obtain sc2 where
      sc2: "eval_batch probe_collaborators 3 5 empty_scope
              ([[[[0.5, 0.1]]], [[[0.1, 0.9]]]], [0, 0]) = Some sc2" "v_stats sc2 = Some st2" by blast
    from eval_batch_stats[OF sc2(1)] sc2(2)
    have "acc_max st2 = Val (1 / 5)"
      unfolding probe_batch_statistics_last by auto
    with e show ?thesis by auto
  qed
  from a b c probe_global_acc_max show ?thesis by blast
qed

theorem C9_logged_metrics_last_batch_witness:
  "\<exists>st r. eval_log probe_collaborators 3 5 empty_scope
             ([([[[[0.5, 0.1]]], [[[0.5, 0.1]]], [[[0.5, 0.1]]]], [0, 0, 0])] @
              [([[[[0.5, 0.1]]], [[[0.1, 0.9]]]], [0, 0])]) = Some st \<and>
      batch_statistics probe_collaborators 3 ([[[[0.5, 0.1]]], [[[0.1, 0.9]]]], [0, 0]) = Some r \<and>
      acc_max r = Val (1 / 2) \<and> acc_max st = Val (1 / 5) \<and>
      acc_ip r = Val (1 / 2) \<and> acc_ip st = Val (1 / 5) \<and>
      qry_need_avg r = Val (5 / 2) \<and> qry_need_avg st = Val 1 \<and>
      qry_need_std r = Val (sqrt (1 / 2)) \<and> qry_need_std st = Val (sqrt (1 / 2) * (2 / 5))"
proof -
  from probe_eval_log_exists obtain st where
    e: "eval_log probe_collaborators 3 5 empty_scope
           ([([[[[0.5, 0.1]]], [[[0.5, 0.1]]], [[[0.5, 0.1]]]], [0, 0, 0])] @
            [([[[[0.5, 0.1]]], [[[0.1, 0.9]]]], [0, 0])]) = Some st" by blast
  from C9_logged_metrics_last_batch[OF e]
  obtain r where r: "batch_statistics probe_collaborators 3
        ([[[[0.5, 0.1]]], [[[0.1, 0.9]]]], [0, 0]) = Some r"
    "acc_max st = fmul (acc_max r) (real (length (fst ([[[[0.5::real, 0.1]]], [[[0.1, 0.9]]]], [0::nat, 0]))) / real 5)"
    "acc_ip st = fmul (acc_ip r) (real (length (fst ([[[[0.5::real, 0.1]]], [[[0.1, 0.9]]]], [0::nat, 0]))) / real 5)"
    "qry_need_avg st = fmul (qry_need_avg r) (real (length (fst ([[[[0.5::real, 0.1]]], [[[0.1, 0.9]]]], [0::nat, 0]))) / real 5)"
    "qry_need_std st = fmul (qry_need_std r) (real (length (fst ([[[[0.5::real, 0.1]]], [[[0.1, 0.9]]]], [0::nat, 0]))) / real 5)"
    by blast
  from r(1) have rv: "r = \<lparr>acc_max = Val (1 / 2), acc_ip = Val (1 / 2),
           qry_need_avg = Val (5 / 2), qry_need_std = Val (sqrt (1 / 2))\<rparr>"
    unfolding probe_batch_statistics_last by simp
  from r(2-5) have "acc_max st = Val (1 / 5)" "acc_ip st = Val (1 / 5)"
    "qry_need_avg st = Val 1" "qry_need_std st = Val (sqrt (1 / 2) * (2 / 5))"
    unfolding rv by simp_all
  with e r(1) rv show ?thesis by auto
qed

subsection \<open>The temperature schedule\<close>

lemma linspace_Some:
  "0 \<le> num \<Longrightarrow> \<exists>tv. linspace s e num = Some tv \<and> length tv = nat num"
  by (simp add: linspace_def Let_def)

lemma linspace_nth:
  assumes "linspace s e num = Some tv" and "i < nat num"
  shows "tv ! i = (if num = 1 then s else s + real i * ((e - s) / (real_of_int num - 1)))"
proof (cases "1 < nat num")
  case False
  with assms(2) have n1: "num = 1" "i = 0" by auto
  with assms(1) show ?thesis by (auto simp: linspace_def Let_def)
next
  case True
  then have num: "num \<noteq> 1" "0 \<le> num" by auto
  have r: "real (nat num - 1) = real_of_int num - 1" using True by (simp add: of_nat_diff)
  have tv: "tv = (map (\<lambda>i. s + real i * ((e - s) / real (nat num - 1))) [0..<nat num])[nat num - 1 := e]"
    using assms(1) True num by (simp add: linspace_def Let_def)
  show ?thesis
  proof (cases "i = nat num - 1")
    case True
    have "real i * ((e - s) / real (nat num - 1)) = e - s" using True \<open>1 < nat num\<close> by simp
    then show ?thesis using tv True assms(2) num r by simp
  next
    case False
    then show ?thesis using tv assms(2) num r by simp
  qed
qed

lemma linspace_first: "linspace s e num = Some tv \<Longrightarrow> 0 < num \<Longrightarrow> tv ! 0 = s"
  using linspace_nth[of s e num tv 0] by simp

lemma linspace_last:
  assumes "linspace s e num = Some tv" and "2 \<le> num"
  shows "tv ! (nat num - 1) = e"
proof -
  have "tv = (map (\<lambda>i. s + real i * ((e - s) / real (nat num - 1))) [0..<nat num])[nat num - 1 := e]"
    using assms by (simp add: linspace_def Let_def)
  then show ?thesis using assms(2) by simp
qed

lemma linspace_antimono:
  assumes "linspace s e num = Some tv" and "e \<le> s" and "i \<le> j" and "j < nat num"
  shows "tv ! j \<le> tv ! i"
proof (cases "num = 1")
  case True
  with assms have "i = 0" "j = 0" by auto
  then show ?thesis by simp
next
  case False
  then have d: "(e - s) / (real_of_int num - 1) \<le> 0"
    using assms(2,4) by (simp add: divide_nonpos_pos)
  have "real j * ((e - s) / (real_of_int num - 1)) \<le> real i * ((e - s) / (real_of_int num - 1))"
    by (rule mult_right_mono_neg) (use d assms(3) in simp_all)
  moreover have "i < nat num" using assms(3,4) by simp
  ultimately show ?thesis
    using linspace_nth[OF assms(1) assms(4)] linspace_nth[OF assms(1) \<open>i < nat num\<close>] False by simp
qed

lemma train_batches_params:
  "params (train_batches ts t bs q) = fold (\<lambda>b p. ts t b p) bs (params q)"
  by (induction bs arbitrary: q) (simp_all add: update_tau_def Let_def)

lemma train_epochs_params:
  "train_epochs ts ev tv loader epochs es q = Some q' \<Longrightarrow>
     params q' = fold (\<lambda>(e, b) p. ts (tv ! e) b p) (List.product es loader) (params q)"
proof (induction es arbitrary: q)
  case Nil then show ?case by simp
next
  case (Cons e es)
  let ?q1 = "train_batches ts (tv ! e) loader q"
  from Cons.prems have r: "train_epochs ts ev tv loader epochs es ?q1 = Some q'"
    by (auto simp: Let_def split: if_splits)
  have "fold (\<lambda>(e, b) p. ts (tv ! e) b p) (map (Pair e) loader) (params q) = params ?q1"
    by (simp add: train_batches_params fold_map comp_def)
  with Cons.IH[OF r] show ?case by simp
qed

subsection \<open>C7: the temperature of an epoch\<close>

text \<open>
  C7 as stated: the last epoch uses \<open>tau_end\<close>. With the default temperatures 1.0 and
  0.2 and a single epoch, \<^verbatim>\<open>np.linspace\<close> has the one point \<open>tau_start\<close>: the training
  step of the only epoch, which is the last one, runs at the temperature 1, not 0.2.
\<close>

theorem C7_last_epoch_tau_end_counterexample:
  "train (\<lambda>t b p. p @ [t]) (\<lambda>e q. True) 1 0.2 1 [()] [] = Some \<lparr>tau = 1, params = [1]\<rparr> \<and>
   (1::real) \<noteq> 0.2"
  by (simp add: train_def linspace_def update_tau_def)

text \<open>
  C7 as amended: in a completed run the temperature of the epoch \<open>e\<close> is the \<open>e\<close>-th of
  the \<open>epochs\<close> points of the linear interpolation from \<open>tau_start\<close> to \<open>tau_end\<close>. The
  first epoch uses \<open>tau_start\<close>; the last epoch uses \<open>tau_end\<close> when there are at least
  two epochs (with one epoch the only temperature is \<open>tau_start\<close>); when
  \<open>tau_end \<le> tau_start\<close> the sequence never increases. The temperature is set on the
  querier before every training batch: the training step of each batch of the epoch
  \<open>e\<close> runs with the querier holding \<open>tau_vals ! e\<close>.
\<close>

theorem C7_temperature_schedule:
  assumes "train ts ev tau_start tau_end epochs loader p0 = Some q"
  shows "\<exists>tau_vals. linspace tau_start tau_end epochs = Some tau_vals \<and>
     length tau_vals = nat epochs \<and>
     (\<forall>e < nat epochs. tau_vals ! e =
        (if epochs = 1 then tau_start
         else tau_start + real e * ((tau_end - tau_start) / (real_of_int epochs - 1)))) \<and>
     (0 < epochs \<longrightarrow> tau_vals ! 0 = tau_start) \<and>
     (2 \<le> epochs \<longrightarrow> tau_vals ! (nat epochs - 1) = tau_end) \<and>
     (tau_end \<le> tau_start \<longrightarrow> (\<forall>i j. i \<le> j \<and> j < nat epochs \<longrightarrow> tau_vals ! j \<le> tau_vals ! i)) \<and>
     params q = fold (\<lambda>(e, b) p. ts (tau_vals ! e) b p) (List.product [0..<nat epochs] loader) p0"
proof -
  from assms obtain tv where tv: "linspace tau_start tau_end epochs = Some tv"
    and run: "train_epochs ts ev tv loader epochs [0..<nat epochs] \<lparr>tau = tau_start, params = p0\<rparr> = Some q"
    by (auto simp: train_def split: bind_splits)
  have nn: "0 \<le> epochs" using tv by (auto simp: linspace_def split: if_splits)
  have len: "length tv = nat epochs" using linspace_Some[OF nn, of tau_start tau_end] tv by simp
  have nth: "\<forall>e < nat epochs. tv ! e =
        (if epochs = 1 then tau_start
         else tau_start + real e * ((tau_end - tau_start) / (real_of_int epochs - 1)))"
    using linspace_nth[OF tv] by blast
  have first: "0 < epochs \<longrightarrow> tv ! 0 = tau_start" using linspace_first[OF tv] by blast
  have last: "2 \<le> epochs \<longrightarrow> tv ! (nat epochs - 1) = tau_end" using linspace_last[OF tv] by blast
  have mono: "tau_end \<le> tau_start \<longrightarrow> (\<forall>i j. i \<le> j \<and> j < nat epochs \<longrightarrow> tv ! j \<le> tv ! i)"
    using linspace_antimono[OF tv] by blast
  have par: "params q = fold (\<lambda>(e, b) p. ts (tv ! e) b p) (List.product [0..<nat epochs] loader) p0"
    using train_epochs_params[OF run] by simp
  from tv len nth first last mono par show ?thesis by blast
qed

theorem C7_temperature_schedule_witness:
  "train (\<lambda>t b p. p @ [t]) (\<lambda>e q. True) 1 0.2 3 [(), ()] [] =
     Some \<lparr>tau = 0.2, params = [1, 1, 0.6, 0.6, 0.2, 0.2]\<rparr> \<and>
   linspace 1 0.2 3 = Some [1, 0.6, 0.2] \<and>
   [1, 0.6, 0.2 :: real] ! 0 = 1 \<and> [1, 0.6, 0.2 :: real] ! (nat 3 - 1) = 0.2"
proof -
  have l: "linspace 1 0.2 3 = Some [1, 0.6, 0.2]"
    by (simp add: linspace_def Let_def upt_rec numeral_3_eq_3)
  have t: "train (\<lambda>t b p. p @ [t]) (\<lambda>e q. True) 1 0.2 3 [(), ()] [] =
     Some \<lparr>tau = 0.2, params = [1, 1, 0.6, 0.6, 0.2, 0.2]\<rparr>"
    unfolding train_def l by (simp add: update_tau_def upt_rec numeral_3_eq_3)
  from C7_temperature_schedule[OF t] l t show ?thesis by auto
qed

subsection \<open>Drawing distinct patches\<close>

lemma remove_nth_distinct:
  assumes "distinct pool" and "i < length pool"
  shows "distinct (take i pool @ drop (Suc i) pool) \<and>
         set (take i pool @ drop (Suc i) pool) = set pool - {pool ! i} \<and>
         length (take i pool @ drop (Suc i) pool) = length pool - 1"
proof -
  have p: "pool = take i pool @ pool ! i # drop (Suc i) pool"
    using assms(2) by (rule id_take_nth_drop)
  have d: "distinct (take i pool @ pool ! i # drop (Suc i) pool)" using assms(1) p by simp
  have s: "set pool = set (take i pool) \<union> {pool ! i} \<union> set (drop (Suc i) pool)"
    using p by (metis Un_insert_right append_Nil2 list.simps(15) set_append sup_bot.right_neutral Un_assoc insert_is_Un)
  from d have "pool ! i \<notin> set (take i pool)" "pool ! i \<notin> set (drop (Suc i) pool)"
    "distinct (take i pool @ drop (Suc i) pool)" by auto
  then show ?thesis using s assms(2) by auto
qed

lemma draw_distinct_props:
  "k \<le> length pool \<Longrightarrow> distinct pool \<Longrightarrow>
     length (draw_distinct raw j k pool) = k \<and> distinct (draw_distinct raw j k pool) \<and>
     set (draw_distinct raw j k pool) \<subseteq> set pool"
proof (induction k arbitrary: j pool)
  case 0 then show ?case by simp
next
  case (Suc k)
  then have ne: "pool \<noteq> []" by auto
  define i where "i = raw j mod length pool"
  have il: "i < length pool" using ne by (simp add: i_def)
  let ?rest = "take i pool @ drop (Suc i) pool"
  note r = remove_nth_distinct[OF Suc.prems(2) il]
  have "k \<le> length ?rest" using r Suc.prems(1) by simp
  from Suc.IH[OF this, of "Suc j"] r
  have ih: "length (draw_distinct raw (Suc j) k ?rest) = k"
    "distinct (draw_distinct raw (Suc j) k ?rest)"
    "set (draw_distinct raw (Suc j) k ?rest) \<subseteq> set pool - {pool ! i}" by auto
  have eq: "draw_distinct raw j (Suc k) pool = pool ! i # draw_distinct raw (Suc j) k ?rest"
    using ne by (simp add: i_def Let_def)
  show ?case unfolding eq using ih il by auto
qed

lemma indicator_row_count:
  assumes "distinct chosen" and "set chosen \<subseteq> {0..<P}"
  shows "count_list (map (\<lambda>p. if p \<in> set chosen then 1 else (0::real)) [0..<P]) 1 = length chosen"
proof -
  have "count_list (map (\<lambda>p. if p \<in> set chosen then 1 else (0::real)) [0..<P]) 1 =
        length (filter (\<lambda>p. p \<in> set chosen) [0..<P])"
    by (simp add: count_list_eq_length_filter comp_def cong: filter_cong)
  also have "\<dots> = card (set (filter (\<lambda>p. p \<in> set chosen) [0..<P]))"
    by (rule distinct_card[symmetric]) simp
  also have "set (filter (\<lambda>p. p \<in> set chosen) [0..<P]) = set chosen"
    using assms(2) by auto
  also have "card (set chosen) = length chosen" using assms(1) by (rule distinct_card)
  finally show ?thesis .
qed

lemma random_row_props:
  "length (random_row raw k P) = P \<and> set (random_row raw k P) \<subseteq> {0, 1} \<and>
   count_list (random_row raw k P) 1 = min k P \<and>
   (P \<le> k \<longrightarrow> random_row raw k P = replicate P 1)"
proof -
  let ?chosen = "draw_distinct raw 0 (min k P) [0..<P]"
  have d: "length ?chosen = min k P" "distinct ?chosen" "set ?chosen \<subseteq> {0..<P}"
    using draw_distinct_props[of "min k P" "[0..<P]" raw 0] by auto
  have row: "random_row raw k P = map (\<lambda>p. if p \<in> set ?chosen then 1 else 0) [0..<P]"
    by (simp add: random_row_def Let_def)
  have c: "count_list (random_row raw k P) 1 = min k P"
    unfolding row using indicator_row_count[OF d(2,3)] d(1) by simp
  have full: "random_row raw k P = replicate P 1" if "P \<le> k"
  proof -
    have "card (set ?chosen) = P" using d(1,2) that by (simp add: distinct_card)
    then have "set ?chosen = {0..<P}" using d(3) by (simp add: card_subset_eq)
    then show ?thesis unfolding row by (auto intro!: nth_equalityI)
  qed
  show ?thesis using c full by (auto simp: row)
qed

subsection \<open>C5: the random sampler reveals exactly its budget\<close>

text \<open>
  C5: for every budget \<open>k\<close>, every \<open>P\<close> and every batch size \<open>n\<close>,
  \<open>random_sampling\<close> returns a mask of \<open>n\<close> rows of \<open>P\<close> entries, each 0 or 1, with
  exactly \<open>min k P\<close> ones in every row. A budget \<open>k \<ge> P\<close> is no error: the mask is
  all-ones.
\<close>

theorem C5_random_sampling_budget:
  "length (random_sampling raw k P n) = n \<and>
   (\<forall>row \<in> set (random_sampling raw k P n).
      length row = P \<and> set row \<subseteq> {0, 1} \<and> count_list row 1 = min k P) \<and>
   (P \<le> k \<longrightarrow> random_sampling raw k P n = replicate n (replicate P 1))"
proof -
  have "random_sampling raw k P n = replicate n (replicate P 1)" if "P \<le> k"
    using that random_row_props by (auto simp: random_sampling_def intro!: nth_equalityI)
  then show ?thesis using random_row_props by (auto simp: random_sampling_def)
qed

theorem C5_random_sampling_budget_witness:
  "random_sampling (\<lambda>n j. j) 2 4 1 = [[1, 0, 1, 0]] \<and>
   count_list (random_sampling (\<lambda>n j. j) 2 4 1 ! 0) 1 = min 2 4 \<and>
   random_sampling (\<lambda>n j. j) 7 4 2 = replicate 2 (replicate 4 1)"
proof -
  have e: "random_sampling (\<lambda>n j. j) 2 4 1 = [[1, 0, 1, 0]]"
    by (simp add: random_sampling_def random_row_def Let_def upt_rec numeral_2_eq_2)
  have "random_sampling (\<lambda>n j. j) 2 4 1 ! 0 \<in> set (random_sampling (\<lambda>n j. j) 2 4 1)"
    unfolding e by simp
  with C5_random_sampling_budget[of "\<lambda>n j. j" 2 4 1] C5_random_sampling_budget[of "\<lambda>n j. j" 7 4 2] e
  show ?thesis by auto
qed

subsection \<open>Selecting and revealing patches under a budget\<close>










subsection \<open>C6: the adaptive sampler reveals exactly the budget of every sample\<close>



end
